theory Spec2Isabelle
  imports Complex_Main "HOL-Library.Monad_Syntax" "HOL-Library.Sublist"
begin

section \<open>Data model (lib/types.ts)\<close>

text \<open>
  A JavaScript number is a binary64 value. The finite ones are rationals, and that is how they
  are modelled: a weight, a penalty or a capacity is a \<open>rat\<close>, the argument
  \<open>Number.POSITIVE_INFINITY\<close> of \<open>dfs\<close> is the constructor \<open>PosInf\<close> of \<open>num\<close>, and
  \<open>+\<close>, \<open>-\<close> and \<open>/ 2\<close> are exact. The source rounds the result of each of these
  operations to the nearest binary64 value, and returns that result unchanged exactly when it
  is a binary64 value itself. The model is therefore the program on the inputs for which every
  intermediate result is one; the predicates \<open>exact_at\<close> and \<open>exact_search\<close> below describe
  such inputs, and the statements whose truth depends on the arithmetic assume them. Weights
  that are infinite or not a number, results that overflow, the depth limit of the call stack
  of the engine (the recursion of \<open>dfs\<close>) and its limit on the number of arguments
  (\<open>Math.min(...weights)\<close>) are not modelled.

  A missing \<open>weight\<close> (read through \<open>?? 0\<close> in the source) is \<open>None\<close>.
  \<open>Graph.chunks\<close> is the object \<open>Record<ChunkId, Chunk>\<close> as the list of its
  (key, value) entries in the order \<open>Object.values\<close> enumerates them; nothing in the solver
  requires the key of an entry to be the \<open>id\<close> of its chunk.
\<close>

type_synonym ChunkId = string

record Chunk =
  chunk_id :: ChunkId
  weight :: "rat option"

record Edge =
  e_from :: ChunkId
  e_to :: ChunkId

record Graph =
  chunks :: "(ChunkId \<times> Chunk) list"
  edges :: "Edge list"

record ClosureSolution =
  closure :: "ChunkId list"
  totalWeight :: rat
  csize :: nat
  penalty :: "rat option"

text \<open>The data model of the specification: every chunk is stored under its own id,
  and the keys of the mapping are unique.\<close>

definition wf_graph :: "Graph \<Rightarrow> bool" where
  "wf_graph g \<longleftrightarrow> distinct (map fst (chunks g)) \<and> list_all (\<lambda>(k, c). chunk_id c = k) (chunks g)"

text \<open>\<open>chunk.weight ?? 0\<close> and \<open>graph.chunks[id]?.weight ?? 0\<close>.\<close>

definition weight0 :: "Chunk \<Rightarrow> rat" where
  "weight0 c = (case weight c of None \<Rightarrow> 0 | Some w \<Rightarrow> w)"

definition weightOf :: "Graph \<Rightarrow> ChunkId \<Rightarrow> rat" where
  "weightOf g i = (case map_of (chunks g) i of None \<Rightarrow> 0 | Some c \<Rightarrow> weight0 c)"

section \<open>Flow Network Engine (class Dinic)\<close>

record DinicEdge =
  dto :: nat
  drev :: nat
  dcap :: rat

type_synonym adjacency = "DinicEdge list list"

datatype num = Fin rat | PosInf

text \<open>The literal \<open>1e-9\<close>: the binary64 value nearest to 10^-9, which is
  4835703278458517 * 2^-82, about 6.2e-26 above 10^-9.\<close>

definition eps :: rat where
  "eps = 4835703278458517 / 4835703278458516698824704"

definition addEdge :: "nat \<Rightarrow> nat \<Rightarrow> rat \<Rightarrow> adjacency \<Rightarrow> adjacency" where
  "addEdge u v c adj =
     (let fwd = \<lparr>dto = v, drev = length (adj ! v), dcap = c\<rparr>;
          rv = \<lparr>dto = u, drev = length (adj ! u), dcap = 0\<rparr>;
          adj1 = adj[u := adj ! u @ [fwd]]
      in adj1[v := adj1 ! v @ [rv]])"

text \<open>The body of the inner \<open>for (const e of this.adj[v])\<close> of \<open>bfs\<close>.\<close>

definition bfs_edge :: "nat \<Rightarrow> DinicEdge \<Rightarrow> int list \<times> nat list \<Rightarrow> int list \<times> nat list" where
  "bfs_edge v e s =
     (if dcap e > eps \<and> fst s ! dto e < 0
      then ((fst s)[dto e := fst s ! v + 1], snd s @ [dto e])
      else s)"

partial_function (option) bfs_loop :: "adjacency \<Rightarrow> nat \<Rightarrow> int list \<times> nat list \<Rightarrow> int list option" where
  "bfs_loop adj i s =
     (if i < length (snd s)
      then bfs_loop adj (Suc i) (fold (bfs_edge (snd s ! i)) (adj ! (snd s ! i)) s)
      else Some (fst s))"

declare bfs_loop.simps [code]

definition bfs :: "adjacency \<Rightarrow> nat \<Rightarrow> int list option" where
  "bfs adj source = bfs_loop adj 0 ((replicate (length adj) (-1))[source := 0], [source])"

text \<open>\<open>Math.min(pushed, e.cap)\<close>.\<close>

fun num_min :: "num \<Rightarrow> rat \<Rightarrow> rat" where
  "num_min PosInf c = c"
| "num_min (Fin p) c = min p c"

text \<open>\<open>e.cap -= tr; this.adj[e.to][e.rev].cap += tr\<close> for the edge \<open>e\<close> at index \<open>i\<close> of
  \<open>adj[v]\<close>, one assignment after the other.\<close>

definition push_edge :: "nat \<Rightarrow> nat \<Rightarrow> rat \<Rightarrow> adjacency \<Rightarrow> adjacency" where
  "push_edge v i tr adj =
     (let e = adj ! v ! i;
          adj1 = adj[v := (adj ! v)[i := e\<lparr>dcap := dcap e - tr\<rparr>]];
          r = adj1 ! dto e ! drev e
      in adj1[dto e := (adj1 ! dto e)[drev e := r\<lparr>dcap := dcap r + tr\<rparr>]])"

text \<open>
  \<open>dfs(v, pushed)\<close> on the state (\<open>adj\<close>, \<open>it\<close>). The \<open>for\<close> loop over the cursor
  \<open>it[v]\<close> is the recursion on the same \<open>v\<close> with the cursor advanced. \<open>dfs(sink, Infinity)\<close>
  returns \<open>Infinity\<close> to the loop \<open>while (pushed > 0) flow += pushed\<close> of \<open>maxFlow\<close>, which
  then never ends: that is the value \<open>None\<close>.
\<close>

partial_function (option) dfs ::
  "nat \<Rightarrow> int list \<Rightarrow> nat \<Rightarrow> num \<Rightarrow> adjacency \<times> nat list \<Rightarrow> ((adjacency \<times> nat list) \<times> rat) option" where
  "dfs sink level v pushed st =
     (if v = sink \<or> pushed = Fin 0
      then (case pushed of Fin p \<Rightarrow> Some (st, p) | PosInf \<Rightarrow> None)
      else if snd st ! v < length (fst st ! v)
      then (let i = snd st ! v; e = fst st ! v ! i in
            if dcap e > eps \<and> level ! dto e = level ! v + 1
            then Option.bind (dfs sink level (dto e) (Fin (num_min pushed (dcap e))) st)
                   (\<lambda>r. if snd r > 0
                        then Some ((push_edge v i (snd r) (fst (fst r)), snd (fst r)), snd r)
                        else dfs sink level v pushed
                               (fst (fst r), (snd (fst r))[v := snd (fst r) ! v + 1]))
            else dfs sink level v pushed (fst st, (snd st)[v := snd st ! v + 1]))
      else Some (st, 0))"

declare dfs.simps [code]

text \<open>\<open>let pushed = dfs(source, Infinity); while (pushed > 0) { flow += pushed;
  pushed = dfs(source, Infinity); }\<close>\<close>

partial_function (option) augment ::
  "nat \<Rightarrow> int list \<Rightarrow> nat \<Rightarrow> adjacency \<times> nat list \<Rightarrow> rat \<Rightarrow> ((adjacency \<times> nat list) \<times> rat) option" where
  "augment sink level source st flow =
     Option.bind (dfs sink level source PosInf st)
       (\<lambda>r. if snd r > 0 then augment sink level source (fst r) (flow + snd r)
            else Some (fst r, flow))"

declare augment.simps [code]

text \<open>\<open>while (bfs()) { it.fill(0); ... }\<close>; the result is the residual network and the flow.\<close>

partial_function (option) maxFlow_loop ::
  "nat \<Rightarrow> nat \<Rightarrow> adjacency \<Rightarrow> rat \<Rightarrow> (adjacency \<times> rat) option" where
  "maxFlow_loop source sink adj flow =
     Option.bind (bfs adj source)
       (\<lambda>level. if level ! sink \<ge> 0
                then Option.bind (augment sink level source (adj, replicate (length adj) 0) flow)
                       (\<lambda>r. maxFlow_loop source sink (fst (fst r)) (snd r))
                else Some (adj, flow))"

declare maxFlow_loop.simps [code]

definition maxFlow :: "adjacency \<Rightarrow> nat \<Rightarrow> nat \<Rightarrow> (adjacency \<times> rat) option" where
  "maxFlow adj source sink = maxFlow_loop source sink adj 0"

text \<open>The body of the \<open>for (const e of this.adj[v])\<close> of \<open>reachable\<close>.\<close>

definition reach_edge :: "DinicEdge \<Rightarrow> bool list \<times> nat list \<Rightarrow> bool list \<times> nat list" where
  "reach_edge e s =
     (if dcap e > eps \<and> \<not> fst s ! dto e
      then ((fst s)[dto e := True], snd s @ [dto e])
      else s)"

partial_function (option) reach_loop :: "adjacency \<Rightarrow> bool list \<times> nat list \<Rightarrow> bool list option" where
  "reach_loop adj s =
     (if snd s \<noteq> []
      then reach_loop adj (fold reach_edge (adj ! last (snd s)) (fst s, butlast (snd s)))
      else Some (fst s))"

declare reach_loop.simps [code]

definition reachable :: "adjacency \<Rightarrow> nat \<Rightarrow> bool list option" where
  "reachable adj source = reach_loop adj ((replicate (length adj) False)[source := True], [source])"

section \<open>Size Enforcer\<close>

text \<open>A JavaScript \<open>Set\<close> is the list of its members in insertion order.\<close>

definition set_add :: "'a \<Rightarrow> 'a list \<Rightarrow> 'a list" where
  "set_add x s = (if x \<in> set s then s else s @ [x])"

definition new_Set :: "'a list \<Rightarrow> 'a list" where
  "new_Set xs = fold set_add xs []"

text \<open>\<open>dependents\<close>: the \<open>Map\<close> from an id to the \<open>Set\<close> of the ids that depend on it.\<close>

definition add_dependent :: "Edge \<Rightarrow> (ChunkId \<rightharpoonup> ChunkId list) \<Rightarrow> (ChunkId \<rightharpoonup> ChunkId list)" where
  "add_dependent e m =
     m(e_to e \<mapsto> set_add (e_from e) (case m (e_to e) of None \<Rightarrow> [] | Some s \<Rightarrow> s))"

definition dependents :: "Graph \<Rightarrow> (ChunkId \<rightharpoonup> ChunkId list)" where
  "dependents g = fold add_dependent (edges g) Map.empty"

text \<open>\<open>weights\<close>: the record built by \<open>reduce\<close>, read through \<open>weights[a] ?? 0\<close>. The
  source builds it as a plain object; for the one id \<open>__proto__\<close> the assignment
  \<open>acc[id] = ...\<close> stores nothing there and the comparators of the two sorts see no number.
  The map below is right for every other id (\<open>plain_ids\<close>).\<close>

definition enforce_weights :: "Graph \<Rightarrow> ChunkId list \<Rightarrow> (ChunkId \<rightharpoonup> rat)" where
  "enforce_weights g closureIds = fold (\<lambda>i acc. acc(i \<mapsto> weightOf g i)) closureIds Map.empty"

definition weight_in :: "(ChunkId \<rightharpoonup> rat) \<Rightarrow> ChunkId \<Rightarrow> rat" where
  "weight_in ws a = (case ws a of None \<Rightarrow> 0 | Some w \<Rightarrow> w)"

text \<open>The loop \<open>for (const cid of removable)\<close>; \<open>break\<close> returns the current \<open>keep\<close>.\<close>

fun trim :: "(ChunkId \<rightharpoonup> ChunkId list) \<Rightarrow> int \<Rightarrow> ChunkId list \<Rightarrow> ChunkId list \<Rightarrow> ChunkId list" where
  "trim deps k [] keep = keep"
| "trim deps k (cid # removable) keep =
     (if int (length keep) \<le> k then keep
      else let isDependency = (case deps cid of None \<Rightarrow> False
                                | Some ds \<Rightarrow> list_ex (\<lambda>d. d \<in> set keep) ds)
           in trim deps k removable (if \<not> isDependency then removeAll cid keep else keep))"

text \<open>\<open>xs.slice(0, k)\<close>: a negative \<open>k\<close> counts from the end.\<close>

definition slice0 :: "int \<Rightarrow> 'a list \<Rightarrow> 'a list" where
  "slice0 k xs = (if k \<ge> 0 then take (nat k) xs else take (nat (int (length xs) + k)) xs)"

text \<open>\<open>Array.prototype.sort\<close> is stable; so is \<open>sort_key\<close>.\<close>

definition enforceSizeLimit :: "Graph \<Rightarrow> ChunkId list \<Rightarrow> int \<Rightarrow> ChunkId list" where
  "enforceSizeLimit g closureIds k =
     (if int (length closureIds) \<le> k then closureIds
      else let ws = enforce_weights g closureIds;
               removable = sort_key (weight_in ws) closureIds;
               keep = trim (dependents g) k removable (new_Set closureIds)
           in if int (length keep) > k
              then slice0 k (sort_key (\<lambda>a. - weight_in ws a) keep)
              else keep)"

section \<open>Closure Builder\<close>

text \<open>\<open>xs.findIndex(p)\<close>; \<open>None\<close> is the result \<open>-1\<close>.\<close>

fun findIndex :: "('a \<Rightarrow> bool) \<Rightarrow> 'a list \<Rightarrow> nat option" where
  "findIndex P [] = None"
| "findIndex P (x # xs) = (if P x then Some 0 else map_option Suc (findIndex P xs))"

definition INF_of :: "rat list \<Rightarrow> rat \<Rightarrow> rat" where
  "INF_of weights p = fold (\<lambda>w acc. acc + \<bar>w - p\<bar>) weights 0 + 1"

text \<open>The two \<open>forEach\<close> bodies; \<open>source = 0\<close>, \<open>sink = 1\<close>, \<open>offset = 2\<close>.\<close>

definition add_chunk :: "rat \<Rightarrow> nat \<times> Chunk \<Rightarrow> adjacency \<Rightarrow> adjacency" where
  "add_chunk p ic adj =
     (let node = fst ic + 2; w = weight0 (snd ic) - p
      in if w \<ge> 0 then addEdge 0 node w adj else addEdge node 1 (- w) adj)"

definition add_dep :: "Chunk list \<Rightarrow> rat \<Rightarrow> Edge \<Rightarrow> adjacency \<Rightarrow> adjacency" where
  "add_dep cs capInf e adj =
     (case findIndex (\<lambda>c. chunk_id c = e_from e) cs of
        None \<Rightarrow> adj
      | Some fromIdx \<Rightarrow>
          (case findIndex (\<lambda>c. chunk_id c = e_to e) cs of
             None \<Rightarrow> adj
           | Some toIdx \<Rightarrow> addEdge (fromIdx + 2) (toIdx + 2) capInf adj))"

definition network :: "Graph \<Rightarrow> rat \<Rightarrow> adjacency" where
  "network g p =
     (let cs = map snd (chunks g);
          capInf = INF_of (map weight0 cs) p
      in fold (add_dep cs capInf) (edges g)
           (fold (add_chunk p) (enumerate 0 cs) (replicate (length cs + 2) [])))"

definition sum_weights :: "Graph \<Rightarrow> ChunkId list \<Rightarrow> rat" where
  "sum_weights g ids = fold (\<lambda>i acc. acc + weightOf g i) ids 0"

definition closure_of :: "Chunk list \<Rightarrow> bool list \<Rightarrow> ChunkId list" where
  "closure_of cs reach = map (chunk_id \<circ> snd) (filter (\<lambda>ic. reach ! (fst ic + 2)) (enumerate 0 cs))"

definition buildClosure :: "Graph \<Rightarrow> rat \<Rightarrow> ClosureSolution option" where
  "buildClosure g p =
     (let cs = map snd (chunks g) in
      if length cs = 0
      then Some \<lparr>closure = [], totalWeight = 0, csize = 0, penalty = Some p\<rparr>
      else do {
        r \<leftarrow> maxFlow (network g p) 0 1;
        reach \<leftarrow> reachable (fst r) 0;
        let cl = closure_of cs reach;
        Some \<lparr>closure = cl, totalWeight = sum_weights g cl, csize = length cl, penalty = Some p\<rparr>
      })"

section \<open>Entry points\<close>

definition maximumWeightClosure :: "Graph \<Rightarrow> ClosureSolution option" where
  "maximumWeightClosure g = buildClosure g 0"

text \<open>The condition under which a candidate replaces \<open>best\<close>.\<close>

definition improves :: "int \<Rightarrow> ClosureSolution \<Rightarrow> ClosureSolution option \<Rightarrow> bool" where
  "improves k candidate best =
     (case best of
        None \<Rightarrow> True
      | Some b \<Rightarrow>
          (let diff = \<bar>int (csize candidate) - k\<bar>
           in diff < \<bar>int (csize b) - k\<bar> \<or>
              (diff = \<bar>int (csize b) - k\<bar> \<and> totalWeight candidate > totalWeight b)))"

text \<open>The penalty search; the first argument counts the iterations still to run.\<close>

fun search :: "nat \<Rightarrow> Graph \<Rightarrow> int \<Rightarrow> rat \<Rightarrow> rat \<Rightarrow> ClosureSolution option \<Rightarrow> ClosureSolution option option" where
  "search 0 g k low high best = Some best"
| "search (Suc n) g k low high best =
     (let p = (low + high) / 2 in
      do {
        candidate \<leftarrow> buildClosure g p;
        let best' = (if improves k candidate best then Some candidate else best);
        if int (csize candidate) > k then search n g k p high best'
        else search n g k low p best'
      })"

text \<open>The search of \<open>solveClosureBySize\<close> up to \<open>const final = best ?? maximumWeightClosure(graph)\<close>.
  \<open>Math.min(...weights)\<close> and \<open>Math.max(...weights)\<close> are folds over the non-empty list of
  weights; the limit of the engine on the number of arguments of a call is not modelled.\<close>

definition penaltySearch :: "Graph \<Rightarrow> int \<Rightarrow> ClosureSolution option" where
  "penaltySearch g k =
     (let weights = map weight0 (map snd (chunks g));
          minW = fold min weights (hd weights);
          maxW = fold max weights (hd weights);
          low = minW - \<bar>minW\<bar> - 5;
          high = maxW + \<bar>maxW\<bar> + 5
      in do {
        best \<leftarrow> search 36 g k low high None;
        (case best of None \<Rightarrow> maximumWeightClosure g | Some b \<Rightarrow> Some b)
      })"

definition solveClosureBySize :: "Graph \<Rightarrow> int \<Rightarrow> ClosureSolution option" where
  "solveClosureBySize g k =
     (let cs = map snd (chunks g) in
      if k \<le> 0 \<or> length cs = 0
      then Some \<lparr>closure = [], totalWeight = 0, csize = 0, penalty = None\<rparr>
      else if k \<ge> int (length cs) then maximumWeightClosure g
      else do {
        final \<leftarrow> penaltySearch g k;
        let finalIds = enforceSizeLimit g (closure final) k;
        Some (final\<lparr>closure := finalIds, totalWeight := sum_weights g finalIds,
                    csize := length finalIds\<rparr>)
      })"

section \<open>Example graphs\<close>

definition mkChunk :: "ChunkId \<Rightarrow> rat \<Rightarrow> ChunkId \<times> Chunk" where
  "mkChunk i w = (i, \<lparr>chunk_id = i, weight = Some w\<rparr>)"

definition mkEdge :: "ChunkId \<Rightarrow> ChunkId \<Rightarrow> Edge" where
  "mkEdge a b = \<lparr>e_from = a, e_to = b\<rparr>"

text \<open>Example A: chunk A of weight 10, chunk B of weight -3, edge A -> B.\<close>

definition exampleA :: Graph where
  "exampleA = \<lparr>chunks = [mkChunk ''A'' 10, mkChunk ''B'' (- 3)], edges = [mkEdge ''A'' ''B'']\<rparr>"

text \<open>Example B: the chain A -> B -> C with weights 10, 5, 1.\<close>

definition exampleB :: Graph where
  "exampleB = \<lparr>chunks = [mkChunk ''A'' 10, mkChunk ''B'' 5, mkChunk ''C'' 1],
                edges = [mkEdge ''A'' ''B'', mkEdge ''B'' ''C'']\<rparr>"


definition emptyGraph :: Graph where
  "emptyGraph = \<lparr>chunks = [], edges = []\<rparr>"

text \<open>A single chunk of weight 0 and no edges.\<close>

definition zeroGraph :: Graph where
  "zeroGraph = \<lparr>chunks = [mkChunk ''A'' 0], edges = []\<rparr>"

text \<open>Weights at the scale of the capacity threshold, multiples of 2^-40 (the threshold lies
  between 1099 and 1100 times 2^-40): A = 1650 * 2^-40, about 1.5e-9, depends on B and C, both
  of weight -990 * 2^-40, about -0.9e-9.\<close>

definition tinyGraph :: Graph where
  "tinyGraph = \<lparr>chunks = [mkChunk ''A'' (825 / 549755813888), mkChunk ''B'' (- (495 / 549755813888)),
                           mkChunk ''C'' (- (495 / 549755813888))],
                 edges = [mkEdge ''A'' ''B'', mkEdge ''A'' ''C'']\<rparr>"

text \<open>Weights around the threshold and no edges: A is the threshold itself, B the next
  binary64 value above it.\<close>

definition rimGraph :: Graph where
  "rimGraph = \<lparr>chunks = [mkChunk ''A'' (4835703278458517 / 4835703278458516698824704),
                          mkChunk ''B'' (2417851639229259 / 2417851639229258349412352),
                          mkChunk ''C'' 0, mkChunk ''D'' (- 2), mkChunk ''E'' 3,
                          (''F'', \<lparr>chunk_id = ''F'', weight = None\<rparr>)],
                edges = []\<rparr>"

text \<open>Two chunks of weight 10, A depending on B.\<close>

definition twinGraph :: Graph where
  "twinGraph = \<lparr>chunks = [mkChunk ''A'' 10, mkChunk ''B'' 10], edges = [mkEdge ''A'' ''B'']\<rparr>"

text \<open>The same with a second edge, to an id that no chunk has.\<close>

definition twinDangling :: Graph where
  "twinDangling = \<lparr>chunks = [mkChunk ''A'' 10, mkChunk ''B'' 10],
                    edges = [mkEdge ''A'' ''B'', mkEdge ''A'' ''Z'']\<rparr>"


definition dupGraph :: Graph where
  "dupGraph = \<lparr>chunks = [(''K1'', \<lparr>chunk_id = ''A'', weight = Some 1\<rparr>),
                          (''K2'', \<lparr>chunk_id = ''A'', weight = Some 2\<rparr>)],
                edges = []\<rparr>"

definition keyGraph :: Graph where
  "keyGraph = \<lparr>chunks = [(''K1'', \<lparr>chunk_id = ''A'', weight = Some 10\<rparr>),
                          (''K2'', \<lparr>chunk_id = ''B'', weight = Some (- 3)\<rparr>)],
                edges = [mkEdge ''A'' ''B'']\<rparr>"

definition swapGraph :: Graph where
  "swapGraph = \<lparr>chunks = [(''A'', \<lparr>chunk_id = ''B'', weight = Some 5\<rparr>),
                           (''B'', \<lparr>chunk_id = ''A'', weight = Some (- 7)\<rparr>)],
                 edges = []\<rparr>"

text \<open>Five chunks with weights that are multiples of 2^-40 within a few 1e-9 of zero (every
  sum and difference of them is exact in double arithmetic):
  A = -3850, B = -1320, C = -2750, D = 2860, E = 3190 (times 2^-40);
  B depends on A, D on C and B, E on C.\<close>

definition thresholdGraph :: Graph where
  "thresholdGraph =
     \<lparr>chunks = [mkChunk ''A'' (- (1925 / 549755813888)),
                mkChunk ''B'' (- (165 / 137438953472)),
                mkChunk ''C'' (- (1375 / 549755813888)),
                mkChunk ''D'' (715 / 274877906944),
                mkChunk ''E'' (1595 / 549755813888)],
      edges = [mkEdge ''B'' ''A'', mkEdge ''D'' ''C'', mkEdge ''D'' ''B'', mkEdge ''E'' ''C'']\<rparr>"

section \<open>Predicates of the verification\<close>

definition wf_adj :: "adjacency \<Rightarrow> bool" where
  "wf_adj adj \<longleftrightarrow>
     (\<forall>u < length adj. \<forall>e \<in> set (adj ! u).
        dto e < length adj \<and> drev e < length (adj ! dto e) \<and> dto (adj ! dto e ! drev e) = u)"

definition redge :: "adjacency \<Rightarrow> nat \<Rightarrow> nat \<Rightarrow> bool" where
  "redge adj u v \<longleftrightarrow> u < length adj \<and> (\<exists>e \<in> set (adj ! u). eps < dcap e \<and> dto e = v)"

definition unseen :: "bool list \<Rightarrow> nat" where
  "unseen seen = card {i. i < length seen \<and> \<not> seen ! i}"

definition rreach :: "adjacency \<Rightarrow> nat \<Rightarrow> nat \<Rightarrow> bool" where
  "rreach adj s v \<longleftrightarrow> (redge adj)\<^sup>*\<^sup>* s v"

definition reach_inv :: "adjacency \<Rightarrow> nat \<Rightarrow> bool list \<times> nat list \<Rightarrow> bool" where
  "reach_inv adj src s \<longleftrightarrow>
     length (fst s) = length adj \<and> src < length adj \<and> fst s ! src \<and>
     (\<forall>x \<in> set (snd s). x < length adj \<and> fst s ! x) \<and>
     (\<forall>v < length adj. fst s ! v \<longrightarrow> rreach adj src v) \<and>
     (\<forall>u < length adj. fst s ! u \<longrightarrow> u \<notin> set (snd s) \<longrightarrow> (\<forall>v. redge adj u v \<longrightarrow> fst s ! v))"

definition negs :: "int list \<Rightarrow> nat" where
  "negs level = card {i. i < length level \<and> level ! i < 0}"

definition parents :: "adjacency \<Rightarrow> nat \<Rightarrow> int list \<Rightarrow> bool" where
  "parents adj src level \<longleftrightarrow>
     (\<forall>x < length adj. 0 \<le> level ! x \<longrightarrow>
        x = src \<or> (\<exists>y < length adj. 0 \<le> level ! y \<and> level ! x = level ! y + 1 \<and> redge adj y x))"

definition bfs_inv :: "adjacency \<Rightarrow> nat \<Rightarrow> int list \<times> nat list \<Rightarrow> bool" where
  "bfs_inv adj src s \<longleftrightarrow>
     length (fst s) = length adj \<and> src < length adj \<and> fst s ! src = 0 \<and>
     (\<forall>x \<in> set (snd s). x < length adj \<and> 0 \<le> fst s ! x) \<and> parents adj src (fst s)"

definition bfs_inv2 :: "adjacency \<Rightarrow> nat \<Rightarrow> int list \<times> nat list \<Rightarrow> bool" where
  "bfs_inv2 adj i s \<longleftrightarrow>
     (\<forall>x < length adj. 0 \<le> fst s ! x \<longrightarrow> x \<in> set (snd s)) \<and>
     (\<forall>j < i. \<forall>y. redge adj (snd s ! j) y \<longrightarrow> 0 \<le> fst s ! y)"

definition closed_levels :: "adjacency \<Rightarrow> int list \<Rightarrow> bool" where
  "closed_levels adj level \<longleftrightarrow>
     (\<forall>x < length adj. 0 \<le> level ! x \<longrightarrow> (\<forall>y. redge adj x y \<longrightarrow> 0 \<le> level ! y))"

definition shape :: "adjacency \<Rightarrow> (nat \<times> nat) list list" where
  "shape adj = map (map (\<lambda>e. (dto e, drev e))) adj"

definition caps_nonneg :: "adjacency \<Rightarrow> bool" where
  "caps_nonneg adj \<longleftrightarrow> (\<forall>u < length adj. \<forall>j < length (adj ! u). 0 \<le> dcap (adj ! u ! j))"

definition outcap :: "nat set \<Rightarrow> DinicEdge list \<Rightarrow> rat" where
  "outcap R es = sum_list (map (\<lambda>e. if dto e \<in> R then 0 else dcap e) es)"

definition cutcap :: "nat set \<Rightarrow> adjacency \<Rightarrow> rat" where
  "cutcap R adj = (\<Sum>x \<in> {x. x < length adj \<and> x \<in> R}. outcap R (adj ! x))"

definition on_grid :: "nat \<Rightarrow> rat \<Rightarrow> bool" where
  "on_grid m x \<longleftrightarrow> (\<exists>k::int. x = of_int k / of_nat m)"

definition grid_caps :: "nat \<Rightarrow> adjacency \<Rightarrow> bool" where
  "grid_caps m adj \<longleftrightarrow> (\<forall>u < length adj. \<forall>e \<in> set (adj ! u). on_grid m (dcap e))"

definition pushed_ok :: "nat \<Rightarrow> nat \<Rightarrow> num \<Rightarrow> bool" where
  "pushed_ok sink v pushed = (case pushed of PosInf \<Rightarrow> v \<noteq> sink | Fin p \<Rightarrow> eps < p)"

definition augmented :: "nat \<Rightarrow> int list \<Rightarrow> adjacency \<Rightarrow> nat \<Rightarrow> rat \<Rightarrow> adjacency \<Rightarrow> bool" where
  "augmented sink level adj v tr adj' \<longleftrightarrow>
     shape adj' = shape adj \<and>
     (\<forall>u < length adj. level ! u < level ! v \<longrightarrow> adj' ! u = adj ! u) \<and>
     (\<forall>u < length adj. \<forall>j < length (adj ! u). dcap (adj ! u ! j) - tr \<le> dcap (adj' ! u ! j)) \<and>
     (\<forall>u < length adj. \<forall>j < length (adj ! u). dcap (adj' ! u ! j) \<le> dcap (adj ! u ! j) + tr) \<and>
     (\<forall>u < length adj. level ! u \<le> level ! v \<longrightarrow>
        (\<forall>j < length (adj ! u). dcap (adj' ! u ! j) \<le> dcap (adj ! u ! j))) \<and>
     (caps_nonneg adj \<longrightarrow> caps_nonneg adj') \<and>
     (\<forall>R. cutcap R adj' = cutcap R adj + (if sink \<in> R then tr else 0) - (if v \<in> R then tr else 0))"

inductive lreach :: "nat \<Rightarrow> int list \<Rightarrow> adjacency \<Rightarrow> nat \<Rightarrow> bool"
  for sink :: nat and level :: "int list" and adj :: adjacency where
  lreach_sink: "lreach sink level adj sink"
| lreach_step: "u < length adj \<Longrightarrow> j < length (adj ! u) \<Longrightarrow> eps < dcap (adj ! u ! j) \<Longrightarrow>
     level ! dto (adj ! u ! j) = level ! u + 1 \<Longrightarrow> lreach sink level adj (dto (adj ! u ! j)) \<Longrightarrow>
     lreach sink level adj u"

definition dead :: "nat \<Rightarrow> int list \<Rightarrow> adjacency \<Rightarrow> nat list \<Rightarrow> bool" where
  "dead sink level adj it \<longleftrightarrow>
     (\<forall>u < length adj. \<forall>j < length (adj ! u). j < it ! u \<longrightarrow>
        \<not> (eps < dcap (adj ! u ! j) \<and> level ! dto (adj ! u ! j) = level ! u + 1 \<and>
           lreach sink level adj (dto (adj ! u ! j))))"

definition dfs_post ::
  "nat \<Rightarrow> int list \<Rightarrow> adjacency \<Rightarrow> nat list \<Rightarrow> nat \<Rightarrow> num \<Rightarrow> (adjacency \<times> nat list) \<times> rat \<Rightarrow> bool" where
  "dfs_post sink level adj it v pushed res \<longleftrightarrow>
     length (snd (fst res)) = length it \<and>
     (\<forall>u < length adj. level ! u < level ! v \<longrightarrow> snd (fst res) ! u = it ! u) \<and>
     (\<forall>p. pushed = Fin p \<longrightarrow> snd res \<le> p) \<and>
     (\<forall>m. grid_caps m adj \<longrightarrow> (\<forall>p. pushed = Fin p \<longrightarrow> on_grid m p) \<longrightarrow>
          on_grid m (snd res) \<and> grid_caps m (fst (fst res))) \<and>
     (snd res = 0 \<and> fst (fst res) = adj \<and>
        (dead sink level adj it \<longrightarrow> dead sink level adj (snd (fst res)) \<and> \<not> lreach sink level adj v)
      \<or> eps < snd res \<and> augmented sink level adj v (snd res) (fst (fst res)))"

definition srccap :: "nat \<Rightarrow> adjacency \<Rightarrow> rat" where
  "srccap src adj = cutcap {src} adj"

definition flow_rel :: "nat \<Rightarrow> nat \<Rightarrow> adjacency \<Rightarrow> adjacency \<Rightarrow> bool" where
  "flow_rel src sink adj0 adj \<longleftrightarrow>
     shape adj = shape adj0 \<and> caps_nonneg adj \<and>
     (\<forall>u < length adj0. \<forall>j < length (adj0 ! u).
        dcap (adj0 ! u ! j) - dcap (adj ! u ! j) \<le> srccap src adj0 - srccap src adj) \<and>
     (\<forall>u < length adj0. \<forall>j < length (adj0 ! u).
        dcap (adj ! u ! j) - dcap (adj0 ! u ! j) \<le> srccap src adj0 - srccap src adj) \<and>
     (\<forall>R. src \<in> R \<longrightarrow> sink \<notin> R \<longrightarrow> cutcap R adj0 - cutcap R adj = srccap src adj0 - srccap src adj)"

definition units :: "rat \<Rightarrow> nat" where
  "units x = nat \<lfloor>x / eps\<rfloor>"

definition has_slot :: "adjacency \<Rightarrow> nat \<Rightarrow> nat \<Rightarrow> rat \<Rightarrow> bool" where
  "has_slot adj u w c \<longleftrightarrow> (\<exists>j < length (adj ! u). dto (adj ! u ! j) = w \<and> dcap (adj ! u ! j) = c)"

definition net_inv :: "nat \<Rightarrow> adjacency \<Rightarrow> bool" where
  "net_inv n adj \<longleftrightarrow> length adj = n + 2 \<and> wf_adj adj \<and> caps_nonneg adj"

definition chunk_cut :: "nat set \<Rightarrow> rat \<Rightarrow> nat \<times> Chunk \<Rightarrow> rat" where
  "chunk_cut R p ic =
     (if weight0 (snd ic) - p \<ge> 0
      then (if 0 \<in> R \<and> fst ic + 2 \<notin> R then weight0 (snd ic) - p else 0)
      else (if fst ic + 2 \<in> R \<and> 1 \<notin> R then - (weight0 (snd ic) - p) else 0))"

definition dep_cut :: "nat set \<Rightarrow> Chunk list \<Rightarrow> rat \<Rightarrow> Edge \<Rightarrow> rat" where
  "dep_cut R cs c e =
     (case findIndex (\<lambda>x. chunk_id x = e_from e) cs of
        None \<Rightarrow> 0
      | Some f \<Rightarrow>
          (case findIndex (\<lambda>x. chunk_id x = e_to e) cs of
             None \<Rightarrow> 0
           | Some t \<Rightarrow> if f + 2 \<in> R \<and> t + 2 \<notin> R then c else 0))"

definition chunksOf :: "Graph \<Rightarrow> Chunk list" where
  "chunksOf g = map snd (chunks g)"

definition INF_g :: "Graph \<Rightarrow> rat \<Rightarrow> rat" where
  "INF_g g p = INF_of (map weight0 (chunksOf g)) p"

definition solved :: "Graph \<Rightarrow> rat \<Rightarrow> adjacency \<Rightarrow> bool list \<Rightarrow> bool" where
  "solved g p adj' reach \<longleftrightarrow>
     flow_rel 0 1 (network g p) adj' \<and> length reach = length (chunksOf g) + 2 \<and>
     (\<forall>v < length (chunksOf g) + 2. reach ! v \<longleftrightarrow> rreach adj' 0 v) \<and> \<not> rreach adj' 0 1 \<and>
     (\<forall>m. grid_caps m (network g p) \<longrightarrow> grid_caps m adj')"

definition keysOf :: "Graph \<Rightarrow> ChunkId set" where
  "keysOf g = fst ` set (chunks g)"

definition idsOf :: "Graph \<Rightarrow> ChunkId set" where
  "idsOf g = chunk_id ` set (map snd (chunks g))"

definition distinct_ids :: "Graph \<Rightarrow> bool" where
  "distinct_ids g \<longleftrightarrow> distinct (map chunk_id (map snd (chunks g)))"

definition closed_under :: "Graph \<Rightarrow> ChunkId set \<Rightarrow> bool" where
  "closed_under g S \<longleftrightarrow>
     (\<forall>e \<in> set (edges g). e_from e \<in> S \<longrightarrow> e_to e \<in> idsOf g \<longrightarrow> e_to e \<in> S)"

definition trimmed :: "Graph \<Rightarrow> ChunkId list \<Rightarrow> int \<Rightarrow> ChunkId list" where
  "trimmed g closureIds k =
     trim (dependents g) k (sort_key (weight_in (enforce_weights g closureIds)) closureIds)
       (new_Set closureIds)"

definition fallbackTaken :: "Graph \<Rightarrow> ChunkId list \<Rightarrow> int \<Rightarrow> bool" where
  "fallbackTaken g closureIds k \<longleftrightarrow>
     \<not> int (length closureIds) \<le> k \<and> int (length (trimmed g closureIds k)) > k"

definition deps_set :: "(ChunkId \<rightharpoonup> ChunkId list) \<Rightarrow> ChunkId \<Rightarrow> ChunkId set" where
  "deps_set m cid = (case m cid of None \<Rightarrow> {} | Some ds \<Rightarrow> set ds)"

definition isDep :: "(ChunkId \<rightharpoonup> ChunkId list) \<Rightarrow> ChunkId \<Rightarrow> ChunkId list \<Rightarrow> bool" where
  "isDep deps cid keep = (case deps cid of None \<Rightarrow> False | Some ds \<Rightarrow> list_ex (\<lambda>d. d \<in> set keep) ds)"

definition fallbackPath :: "Graph \<Rightarrow> int \<Rightarrow> bool" where
  "fallbackPath g k \<longleftrightarrow>
     0 < k \<and> k < int (length (chunks g)) \<and>
     (case penaltySearch g k of None \<Rightarrow> False | Some final \<Rightarrow> fallbackTaken g (closure final) k)"

definition chunk_live :: "rat \<Rightarrow> nat \<times> Chunk \<Rightarrow> nat \<Rightarrow> nat \<Rightarrow> bool" where
  "chunk_live p ic x y \<longleftrightarrow>
     (x = 0 \<and> y = fst ic + 2 \<and> eps < weight0 (snd ic) - p) \<or>
     (x = fst ic + 2 \<and> y = 1 \<and> eps < p - weight0 (snd ic))"

definition slots :: "adjacency \<Rightarrow> nat" where
  "slots adj = sum_list (map length adj)"

definition members :: "Chunk list \<Rightarrow> bool list \<Rightarrow> Chunk list" where
  "members cs reach = map snd (filter (\<lambda>ic. reach ! (fst ic + 2)) (enumerate 0 cs))"

definition coarse :: "nat \<Rightarrow> Graph \<Rightarrow> rat \<Rightarrow> bool" where
  "coarse m g p \<longleftrightarrow> 0 < m \<and> m < 1000000000 \<and> (\<forall>c \<in> set (map snd (chunks g)). on_grid m (weight0 c - p))"

definition reachSet :: "bool list \<Rightarrow> nat set" where
  "reachSet reach = {v. v < length reach \<and> reach ! v}"

definition dep_closed :: "Graph \<Rightarrow> nat set \<Rightarrow> bool" where
  "dep_closed g S \<longleftrightarrow>
     (\<forall>e \<in> set (edges g). \<forall>f t.
        findIndex (\<lambda>x. chunk_id x = e_from e) (chunksOf g) = Some f \<longrightarrow>
        findIndex (\<lambda>x. chunk_id x = e_to e) (chunksOf g) = Some t \<longrightarrow>
        f + 2 \<in> S \<longrightarrow> t + 2 \<in> S)"

definition gain :: "Graph \<Rightarrow> rat \<Rightarrow> nat set \<Rightarrow> rat" where
  "gain g p S =
     sum_list (map (\<lambda>ic. if fst ic + 2 \<in> S then weight0 (snd ic) - p else 0) (enumerate 0 (chunksOf g)))"

text \<open>
  \<open>fixed s x\<close>: x is an integer multiple of 2^-s of absolute value at most 2^(53 - s). For
  s up to 1074 every such number is a binary64 value, so a binary64 addition or subtraction
  whose exact result is such a number returns that number.
\<close>

definition fixed :: "nat \<Rightarrow> rat \<Rightarrow> bool" where
  "fixed s x \<longleftrightarrow> on_grid (2 ^ s) x \<and> \<bar>x\<bar> * 2 ^ s \<le> 2 ^ 53"

text \<open>
  \<open>exact_at s g p\<close>: the weights of g and the penalty p are such numbers, and
  \<open>INF = (sum of |weight - penalty|) + 1\<close> is at most 2^(52 - s). Every number that
  \<open>buildClosure(g, p)\<close> computes is then such a number (\<open>exact_INF\<close>, \<open>exact_network\<close>,
  \<open>exact_residual\<close> below), and at p = 0 so is every partial sum of \<open>totalWeight\<close>.
\<close>

definition exact_at :: "nat \<Rightarrow> Graph \<Rightarrow> rat \<Rightarrow> bool" where
  "exact_at s g p \<longleftrightarrow>
     (\<forall>c \<in> set (map snd (chunks g)). fixed s (weight0 c)) \<and> fixed s p \<and>
     INF_of (map weight0 (map snd (chunks g))) p * 2 ^ s \<le> 2 ^ 52"

text \<open>
  \<open>exact_search s W g\<close>: the weights of g are multiples of 2^-s of absolute value at most
  W, with room for the 36 halvings of the penalty search: each penalty it visits is a multiple
  of 2^-(s + 36) between -(2 W + 5) and 2 W + 5, and \<open>exact_at (s + 36)\<close> holds there
  (\<open>penaltySearch_exact\<close> below).
\<close>

definition exact_search :: "nat \<Rightarrow> rat \<Rightarrow> Graph \<Rightarrow> bool" where
  "exact_search s W g \<longleftrightarrow>
     (\<forall>c \<in> set (map snd (chunks g)). on_grid (2 ^ s) (weight0 c) \<and> \<bar>weight0 c\<bar> \<le> W) \<and>
     (of_nat (length (chunks g) + 2) * (3 * W + 5) + 1) * 2 ^ (s + 36) \<le> 2 ^ 52"


definition caps_le :: "rat \<Rightarrow> adjacency \<Rightarrow> bool" where
  "caps_le B adj \<longleftrightarrow> (\<forall>u < length adj. \<forall>e \<in> set (adj ! u). dcap e \<le> B)"

section \<open>Residual reachability\<close>

lemma wf_adj_dto: "wf_adj adj \<Longrightarrow> u < length adj \<Longrightarrow> e \<in> set (adj ! u) \<Longrightarrow> dto e < length adj"
  unfolding wf_adj_def by simp

lemma unseen_mark:
  assumes "i < length seen" "\<not> seen ! i"
  shows "Suc (unseen (seen[i := True])) = unseen seen"
proof -
  let ?A = "{j. j < length seen \<and> \<not> seen ! j}"
  have fin: "finite ?A" by simp
  have "{j. j < length (seen[i := True]) \<and> \<not> seen[i := True] ! j} = ?A - {i}"
    using assms by (auto simp: nth_list_update)
  moreover have "i \<in> ?A" using assms by simp
  moreover have "Suc (card (?A - {i})) = card ?A"
    using fin \<open>i \<in> ?A\<close> by (rule card_Suc_Diff1)
  ultimately show ?thesis
    unfolding unseen_def by simp
qed

lemma fold_reach_edge:
  assumes "\<forall>e \<in> set es. dto e < length seen"
  shows "length (fst (fold reach_edge es (seen, st))) = length seen \<and>
         (\<forall>x < length seen. fst (fold reach_edge es (seen, st)) ! x \<longleftrightarrow>
             seen ! x \<or> (\<exists>e \<in> set es. eps < dcap e \<and> dto e = x)) \<and>
         set (snd (fold reach_edge es (seen, st))) =
             set st \<union> {x. x < length seen \<and> fst (fold reach_edge es (seen, st)) ! x \<and> \<not> seen ! x} \<and>
         2 * unseen (fst (fold reach_edge es (seen, st))) + length (snd (fold reach_edge es (seen, st)))
             \<le> 2 * unseen seen + length st"
  using assms
proof (induction es arbitrary: seen st)
  case Nil
  then show ?case by auto
next
  case (Cons e es)
  show ?case
  proof (cases "eps < dcap e \<and> \<not> seen ! dto e")
    case True
    let ?seen = "seen[dto e := True]"
    let ?st = "st @ [dto e]"
    have step: "fold reach_edge (e # es) (seen, st) = fold reach_edge es (?seen, ?st)"
      using True by (simp add: reach_edge_def)
    have lt: "dto e < length seen" using Cons.prems by simp
    have "\<forall>e \<in> set es. dto e < length ?seen" using Cons.prems by simp
    from Cons.IH[OF this, of ?st] have IH:
      "length (fst (fold reach_edge es (?seen, ?st))) = length seen"
      "\<forall>x < length seen. fst (fold reach_edge es (?seen, ?st)) ! x \<longleftrightarrow>
             ?seen ! x \<or> (\<exists>e \<in> set es. eps < dcap e \<and> dto e = x)"
      "set (snd (fold reach_edge es (?seen, ?st))) =
             set ?st \<union> {x. x < length seen \<and> fst (fold reach_edge es (?seen, ?st)) ! x \<and> \<not> ?seen ! x}"
      "2 * unseen (fst (fold reach_edge es (?seen, ?st))) + length (snd (fold reach_edge es (?seen, ?st)))
             \<le> 2 * unseen ?seen + length ?st"
      by simp_all
    have m: "Suc (unseen ?seen) = unseen seen" using unseen_mark[OF lt] True by simp
    have c2: "\<forall>x < length seen. fst (fold reach_edge es (?seen, ?st)) ! x \<longleftrightarrow>
             seen ! x \<or> (\<exists>e' \<in> set (e # es). eps < dcap e' \<and> dto e' = x)"
      using IH(2) True lt by (auto simp: nth_list_update)
    have c3: "set (snd (fold reach_edge es (?seen, ?st))) =
             set st \<union> {x. x < length seen \<and> fst (fold reach_edge es (?seen, ?st)) ! x \<and> \<not> seen ! x}"
      using IH(3) IH(2) True lt by (auto simp: nth_list_update)
    have c4: "2 * unseen (fst (fold reach_edge es (?seen, ?st))) + length (snd (fold reach_edge es (?seen, ?st)))
             \<le> 2 * unseen seen + length st"
      using IH(4) m by simp
    show ?thesis unfolding step using IH(1) c2 c3 c4 by blast
  next
    case False
    have step: "fold reach_edge (e # es) (seen, st) = fold reach_edge es (seen, st)"
      using False by (auto simp: reach_edge_def)
    have "\<forall>e \<in> set es. dto e < length seen" using Cons.prems by simp
    from Cons.IH[OF this, of st] have IH:
      "length (fst (fold reach_edge es (seen, st))) = length seen"
      "\<forall>x < length seen. fst (fold reach_edge es (seen, st)) ! x \<longleftrightarrow>
             seen ! x \<or> (\<exists>e \<in> set es. eps < dcap e \<and> dto e = x)"
      "set (snd (fold reach_edge es (seen, st))) =
             set st \<union> {x. x < length seen \<and> fst (fold reach_edge es (seen, st)) ! x \<and> \<not> seen ! x}"
      "2 * unseen (fst (fold reach_edge es (seen, st))) + length (snd (fold reach_edge es (seen, st)))
             \<le> 2 * unseen seen + length st"
      by simp_all
    have c2: "\<forall>x < length seen. fst (fold reach_edge es (seen, st)) ! x \<longleftrightarrow>
             seen ! x \<or> (\<exists>e' \<in> set (e # es). eps < dcap e' \<and> dto e' = x)"
      using IH(2) False by auto
    show ?thesis unfolding step using IH(1) c2 IH(3) IH(4) by blast
  qed
qed

lemma redge_in_range: "wf_adj adj \<Longrightarrow> redge adj u v \<Longrightarrow> v < length adj"
  unfolding redge_def by (auto dest: wf_adj_dto)

lemma rreach_in_range:
  assumes "wf_adj adj" "s < length adj" "rreach adj s v"
  shows "v < length adj"
proof -
  have "(redge adj)\<^sup>*\<^sup>* s v" using assms(3) unfolding rreach_def .
  then show ?thesis
    by (induction rule: rtranclp_induct) (use assms in \<open>auto dest: redge_in_range\<close>)
qed

lemma reach_inv_step:
  assumes wf: "wf_adj adj" and inv: "reach_inv adj src (seen, stack)" and ne: "stack \<noteq> []"
  defines "s' \<equiv> fold reach_edge (adj ! last stack) (seen, butlast stack)"
  shows "reach_inv adj src s' \<and>
         2 * unseen (fst s') + length (snd s') < 2 * unseen seen + length stack"
proof -
  let ?v = "last stack"
  have len: "length seen = length adj" and srcn: "src < length adj" and srcs: "seen ! src"
    and stk: "\<forall>x \<in> set stack. x < length adj \<and> seen ! x"
    and snd: "\<forall>v < length adj. seen ! v \<longrightarrow> rreach adj src v"
    and cl: "\<forall>u < length adj. seen ! u \<longrightarrow> u \<notin> set stack \<longrightarrow> (\<forall>v. redge adj u v \<longrightarrow> seen ! v)"
    using inv unfolding reach_inv_def by simp_all
  have vin: "?v \<in> set stack" using ne by simp
  then have vn: "?v < length adj" and vs: "seen ! ?v" using stk by auto
  have rng: "\<forall>e \<in> set (adj ! ?v). dto e < length seen"
    using wf_adj_dto[OF wf vn] len by simp
  note F = fold_reach_edge[OF rng, of "butlast stack", folded s'_def]
  have f1: "length (fst s') = length adj" using F len by simp
  have f2: "\<And>x. x < length adj \<Longrightarrow> fst s' ! x \<longleftrightarrow>
      seen ! x \<or> (\<exists>e \<in> set (adj ! ?v). eps < dcap e \<and> dto e = x)"
    using F len by simp
  have f3: "set (snd s') = set (butlast stack) \<union> {x. x < length adj \<and> fst s' ! x \<and> \<not> seen ! x}"
    using F len by simp
  have f4: "2 * unseen (fst s') + length (snd s') \<le> 2 * unseen seen + length (butlast stack)"
    using F by simp
  have i3: "fst s' ! src" using f2[OF srcn] srcs by simp
  have i4: "\<forall>x \<in> set (snd s'). x < length adj \<and> fst s' ! x"
  proof
    fix x assume "x \<in> set (snd s')"
    then consider "x \<in> set (butlast stack)" | "x < length adj" "fst s' ! x" using f3 by auto
    then show "x < length adj \<and> fst s' ! x"
    proof cases
      case 1
      then have "x \<in> set stack" by (rule in_set_butlastD)
      then show ?thesis using stk f2 by auto
    qed simp
  qed
  have i5: "\<forall>v < length adj. fst s' ! v \<longrightarrow> rreach adj src v"
  proof (intro allI impI)
    fix v assume v: "v < length adj" and sv: "fst s' ! v"
    then consider "seen ! v" | "\<exists>e \<in> set (adj ! ?v). eps < dcap e \<and> dto e = v" using f2 by auto
    then show "rreach adj src v"
    proof cases
      case 1 then show ?thesis using snd v by simp
    next
      case 2
      then have "redge adj ?v v" using vn unfolding redge_def by simp
      moreover have "rreach adj src ?v" using snd vn vs by simp
      ultimately show ?thesis unfolding rreach_def by simp
    qed
  qed
  have i6: "\<forall>u < length adj. fst s' ! u \<longrightarrow> u \<notin> set (snd s') \<longrightarrow> (\<forall>v. redge adj u v \<longrightarrow> fst s' ! v)"
  proof (intro allI impI)
    fix u v assume u: "u < length adj" and su: "fst s' ! u" and nu: "u \<notin> set (snd s')"
      and e: "redge adj u v"
    have vr: "v < length adj" using redge_in_range[OF wf e] .
    have seenu: "seen ! u" using nu f3 u su by auto
    have nb: "u \<notin> set (butlast stack)" using nu f3 by auto
    show "fst s' ! v"
    proof (cases "u \<in> set stack")
      case False
      then have "seen ! v" using cl u seenu e by simp
      then show ?thesis using f2[OF vr] by simp
    next
      case True
      have "stack = butlast stack @ [?v]" using ne by simp
      then have "set stack = set (butlast stack @ [?v])" by simp
      then have "set stack = set (butlast stack) \<union> {?v}" by (simp only: set_append list.set)
      then have "u = ?v" using True nb by auto
      then show ?thesis using e f2[OF vr] unfolding redge_def by auto
    qed
  qed
  have "length (butlast stack) < length stack" using ne by simp
  then have m: "2 * unseen (fst s') + length (snd s') < 2 * unseen seen + length stack"
    using f4 by simp
  show ?thesis unfolding reach_inv_def using f1 srcn i3 i4 i5 i6 m by simp
qed

lemma reach_loop_correct:
  assumes wf: "wf_adj adj"
  shows "reach_inv adj src s \<Longrightarrow>
         \<exists>r. reach_loop adj s = Some r \<and> length r = length adj \<and>
             (\<forall>v < length adj. r ! v \<longleftrightarrow> rreach adj src v)"
proof (induction s rule: measure_induct_rule[where f = "\<lambda>s. 2 * unseen (fst s) + length (snd s)"])
  case (less s)
  obtain seen stack where s: "s = (seen, stack)" by (cases s)
  show ?case
  proof (cases "stack = []")
    case True
    have inv: "reach_inv adj src (seen, [])" using less.prems s True by simp
    have r: "reach_loop adj s = Some seen" using s True by (subst reach_loop.simps) simp
    have len: "length seen = length adj" using inv unfolding reach_inv_def by simp
    have "seen ! v" if "rreach adj src v" for v
    proof -
      have "(redge adj)\<^sup>*\<^sup>* src v" using that unfolding rreach_def .
      then show ?thesis
      proof (induction rule: rtranclp_induct)
        case base
        then show ?case using inv unfolding reach_inv_def by simp
      next
        case (step y z)
        have "y < length adj" using step.hyps(2) unfolding redge_def by simp
        then show ?case using inv step unfolding reach_inv_def by simp
      qed
    qed
    moreover have "\<And>v. v < length adj \<Longrightarrow> seen ! v \<Longrightarrow> rreach adj src v"
      using inv unfolding reach_inv_def by simp
    ultimately show ?thesis using r len by auto
  next
    case False
    let ?s' = "fold reach_edge (adj ! last stack) (seen, butlast stack)"
    have inv: "reach_inv adj src (seen, stack)" using less.prems s by simp
    from reach_inv_step[OF wf inv False]
    have inv': "reach_inv adj src ?s'"
      and m: "2 * unseen (fst ?s') + length (snd ?s') < 2 * unseen (fst s) + length (snd s)"
      using s by simp_all
    have r: "reach_loop adj s = reach_loop adj ?s'"
      using s False by (subst reach_loop.simps) simp
    show ?thesis unfolding r by (rule less.IH[OF m inv'])
  qed
qed

lemma reachable_correct:
  assumes wf: "wf_adj adj" and src: "src < length adj"
  shows "\<exists>r. reachable adj src = Some r \<and> length r = length adj \<and>
             (\<forall>v < length adj. r ! v \<longleftrightarrow> rreach adj src v)"
proof -
  let ?seen = "(replicate (length adj) False)[src := True]"
  have "reach_inv adj src (?seen, [src])"
    unfolding reach_inv_def using src by (auto simp: nth_list_update rreach_def)
  from reach_loop_correct[OF wf this] show ?thesis unfolding reachable_def .
qed

section \<open>Breadth-first levels\<close>

lemma negs_mark:
  assumes "i < length level" "level ! i < 0" "0 \<le> c"
  shows "Suc (negs (level[i := c])) = negs level"
proof -
  let ?A = "{j. j < length level \<and> level ! j < 0}"
  have fin: "finite ?A" by simp
  have "{j. j < length (level[i := c]) \<and> level[i := c] ! j < 0} = ?A - {i}"
    using assms by (auto simp: nth_list_update)
  moreover have "i \<in> ?A" using assms by simp
  moreover have "Suc (card (?A - {i})) = card ?A"
    using fin \<open>i \<in> ?A\<close> by (rule card_Suc_Diff1)
  ultimately show ?thesis
    unfolding negs_def by simp
qed

lemma fold_bfs_edge:
  assumes "fold (bfs_edge v) es (level, q) = (level', q')"
    and "\<forall>e \<in> set es. dto e < length level" and "v < length level" and "0 \<le> level ! v"
  shows "length level' = length level \<and>
         (\<forall>x < length level. 0 \<le> level ! x \<longrightarrow> level' ! x = level ! x) \<and>
         (\<forall>x < length level. level ! x < 0 \<longrightarrow> level' ! x < 0 \<or>
             (level' ! x = level ! v + 1 \<and> (\<exists>e \<in> set es. eps < dcap e \<and> dto e = x))) \<and>
         set q' = set q \<union> {x. x < length level \<and> 0 \<le> level' ! x \<and> level ! x < 0} \<and>
         length q \<le> length q' \<and>
         negs level' + length q' = negs level + length q"
  using assms
proof (induction es arbitrary: level q)
  case Nil
  then show ?case by auto
next
  case (Cons e es)
  show ?case
  proof (cases "eps < dcap e \<and> level ! dto e < 0")
    case True
    let ?l = "level[dto e := level ! v + 1]"
    let ?q = "q @ [dto e]"
    have lt: "dto e < length level" using Cons.prems(2) by simp
    have ne: "dto e \<noteq> v" using True Cons.prems(4) by auto
    have one: "bfs_edge v e (level, q) = (?l, ?q)" using True by (simp add: bfs_edge_def)
    have step: "fold (bfs_edge v) es (?l, ?q) = (level', q')"
      using Cons.prems(1) one by simp
    have p2: "\<forall>e \<in> set es. dto e < length ?l" using Cons.prems(2) by simp
    have p3: "v < length ?l" using Cons.prems(3) by simp
    have p4: "0 \<le> ?l ! v" using Cons.prems(4) ne by simp
    have lv: "?l ! v = level ! v" using ne by simp
    from Cons.IH[OF step p2 p3 p4] have IH:
      "length level' = length level"
      "\<forall>x < length level. 0 \<le> ?l ! x \<longrightarrow> level' ! x = ?l ! x"
      "\<forall>x < length level. ?l ! x < 0 \<longrightarrow> level' ! x < 0 \<or>
             (level' ! x = level ! v + 1 \<and> (\<exists>e \<in> set es. eps < dcap e \<and> dto e = x))"
      "set q' = set ?q \<union> {x. x < length level \<and> 0 \<le> level' ! x \<and> ?l ! x < 0}"
      "length ?q \<le> length q'"
      "negs level' + length q' = negs ?l + length ?q"
      unfolding lv by simp_all
    have m: "Suc (negs ?l) = negs level"
      using negs_mark[OF lt, of "level ! v + 1"] True Cons.prems(4) by simp
    have new: "level' ! dto e = level ! v + 1"
      using IH(2) lt Cons.prems(4) by simp
    have c2: "\<forall>x < length level. 0 \<le> level ! x \<longrightarrow> level' ! x = level ! x"
    proof (intro allI impI)
      fix x assume x: "x < length level" "0 \<le> level ! x"
      then have "x \<noteq> dto e" using True by auto
      then have "?l ! x = level ! x" by simp
      then show "level' ! x = level ! x" using IH(2) x by simp
    qed
    have c3: "\<forall>x < length level. level ! x < 0 \<longrightarrow> level' ! x < 0 \<or>
             (level' ! x = level ! v + 1 \<and> (\<exists>e' \<in> set (e # es). eps < dcap e' \<and> dto e' = x))"
    proof (intro allI impI)
      fix x assume x: "x < length level" "level ! x < 0"
      show "level' ! x < 0 \<or>
             (level' ! x = level ! v + 1 \<and> (\<exists>e' \<in> set (e # es). eps < dcap e' \<and> dto e' = x))"
      proof (cases "x = dto e")
        case True
        then show ?thesis using new \<open>eps < dcap e \<and> level ! dto e < 0\<close> by simp
      next
        case False
        then have "?l ! x < 0" using x by simp
        then show ?thesis using IH(3) x by auto
      qed
    qed
    have c4: "set q' = set q \<union> {x. x < length level \<and> 0 \<le> level' ! x \<and> level ! x < 0}"
    proof -
      have "{x. x < length level \<and> 0 \<le> level' ! x \<and> level ! x < 0} =
            insert (dto e) {x. x < length level \<and> 0 \<le> level' ! x \<and> ?l ! x < 0}"
        using lt True new Cons.prems(4) by (auto simp: nth_list_update)
      then show ?thesis using IH(4) by simp
    qed
    have c5: "length q \<le> length q'" using IH(5) by simp
    have c6: "negs level' + length q' = negs level + length q" using IH(6) m by simp
    show ?thesis using IH(1) c2 c3 c4 c5 c6 by blast
  next
    case False
    have one: "bfs_edge v e (level, q) = (level, q)" using False by (auto simp: bfs_edge_def)
    have step: "fold (bfs_edge v) es (level, q) = (level', q')"
      using Cons.prems(1) one by simp
    have p2: "\<forall>e \<in> set es. dto e < length level" using Cons.prems(2) by simp
    from Cons.IH[OF step p2 Cons.prems(3) Cons.prems(4)] have IH:
      "length level' = length level"
      "\<forall>x < length level. 0 \<le> level ! x \<longrightarrow> level' ! x = level ! x"
      "\<forall>x < length level. level ! x < 0 \<longrightarrow> level' ! x < 0 \<or>
             (level' ! x = level ! v + 1 \<and> (\<exists>e \<in> set es. eps < dcap e \<and> dto e = x))"
      "set q' = set q \<union> {x. x < length level \<and> 0 \<le> level' ! x \<and> level ! x < 0}"
      "length q \<le> length q'"
      "negs level' + length q' = negs level + length q"
      by simp_all
    have c3: "\<forall>x < length level. level ! x < 0 \<longrightarrow> level' ! x < 0 \<or>
             (level' ! x = level ! v + 1 \<and> (\<exists>e' \<in> set (e # es). eps < dcap e' \<and> dto e' = x))"
      using IH(3) by auto
    show ?thesis using IH(1) IH(2) c3 IH(4) IH(5) IH(6) by blast
  qed
qed

lemma bfs_inv_step:
  assumes wf: "wf_adj adj" and inv: "bfs_inv adj src (level, q)" and i: "i < length q"
  defines "s' \<equiv> fold (bfs_edge (q ! i)) (adj ! (q ! i)) (level, q)"
  shows "bfs_inv adj src s' \<and> i < length (snd s') \<and>
         negs (fst s') + length (snd s') = negs level + length q"
proof -
  let ?v = "q ! i"
  obtain level' q' where s': "s' = (level', q')" by (cases s')
  have len: "length level = length adj" and srcn: "src < length adj" and src0: "level ! src = 0"
    and qs: "\<forall>x \<in> set q. x < length adj \<and> 0 \<le> level ! x"
    and par: "parents adj src level"
    using inv unfolding bfs_inv_def by simp_all
  have vq: "?v \<in> set q" using i by simp
  then have vn: "?v < length level" and v0: "0 \<le> level ! ?v" using qs len by auto
  have rng: "\<forall>e \<in> set (adj ! ?v). dto e < length level"
    using wf_adj_dto[OF wf] vn len by simp
  have fo: "fold (bfs_edge ?v) (adj ! ?v) (level, q) = (level', q')" using s' s'_def by simp
  note F = fold_bfs_edge[OF fo rng vn v0]
  have f1: "length level' = length adj" using F len by simp
  have f2: "\<And>x. x < length adj \<Longrightarrow> 0 \<le> level ! x \<Longrightarrow> level' ! x = level ! x"
    using F len by simp
  have f3: "\<And>x. x < length adj \<Longrightarrow> level ! x < 0 \<Longrightarrow> level' ! x < 0 \<or>
             (level' ! x = level ! ?v + 1 \<and> (\<exists>e \<in> set (adj ! ?v). eps < dcap e \<and> dto e = x))"
    using F len by simp
  have f4: "set q' = set q \<union> {x. x < length adj \<and> 0 \<le> level' ! x \<and> level ! x < 0}"
    using F len by simp
  have f5: "length q \<le> length q'" using F by simp
  have f6: "negs level' + length q' = negs level + length q" using F by simp
  have i3: "level' ! src = 0" using f2[OF srcn] src0 by simp
  have i4: "\<forall>x \<in> set q'. x < length adj \<and> 0 \<le> level' ! x"
    using f4 qs f2 by auto
  have i5: "parents adj src level'"
    unfolding parents_def
  proof (intro allI impI)
    fix x assume x: "x < length adj" and lx: "0 \<le> level' ! x"
    show "x = src \<or> (\<exists>y < length adj. 0 \<le> level' ! y \<and> level' ! x = level' ! y + 1 \<and> redge adj y x)"
    proof (cases "0 \<le> level ! x")
      case True
      then have eq: "level' ! x = level ! x" using f2 x by simp
      from par x True consider "x = src"
        | y where "y < length adj" "0 \<le> level ! y" "level ! x = level ! y + 1" "redge adj y x"
        unfolding parents_def by blast
      then show ?thesis
      proof cases
        case 2
        then have "level' ! y = level ! y" using f2 by simp
        then show ?thesis using 2 eq by auto
      qed simp
    next
      case False
      then have "level' ! x = level ! ?v + 1 \<and> (\<exists>e \<in> set (adj ! ?v). eps < dcap e \<and> dto e = x)"
        using f3[OF x] lx by auto
      moreover have "level' ! ?v = level ! ?v" using f2 vn v0 len by simp
      moreover have "?v < length adj" using vn len by simp
      ultimately show ?thesis using v0 unfolding redge_def by auto
    qed
  qed
  have "bfs_inv adj src (level', q')"
    unfolding bfs_inv_def using f1 srcn i3 i4 i5 by simp
  then show ?thesis using s' f5 f6 i by simp
qed

lemma bfs_loop_correct:
  assumes wf: "wf_adj adj"
  shows "bfs_inv adj src s \<Longrightarrow> i \<le> length (snd s) \<Longrightarrow>
         \<exists>level. bfs_loop adj i s = Some level \<and> length level = length adj \<and>
             level ! src = 0 \<and> parents adj src level"
proof (induction "negs (fst s) + length (snd s) - i" arbitrary: s i rule: less_induct)
  case less
  obtain level q where s: "s = (level, q)" by (cases s)
  show ?case
  proof (cases "i < length q")
    case False
    have "bfs_loop adj i s = Some level" using s False by (subst bfs_loop.simps) simp
    then show ?thesis using less.prems(1) s unfolding bfs_inv_def by simp
  next
    case True
    let ?s' = "fold (bfs_edge (q ! i)) (adj ! (q ! i)) (level, q)"
    have inv: "bfs_inv adj src (level, q)" using less.prems(1) s by simp
    from bfs_inv_step[OF wf inv True]
    have inv': "bfs_inv adj src ?s'" and il: "i < length (snd ?s')"
      and m: "negs (fst ?s') + length (snd ?s') = negs level + length q"
      by simp_all
    have r: "bfs_loop adj i s = bfs_loop adj (Suc i) ?s'"
      using s True by (subst bfs_loop.simps) simp
    have dec: "negs (fst ?s') + length (snd ?s') - Suc i < negs (fst s) + length (snd s) - i"
      using m il True s by simp
    have "Suc i \<le> length (snd ?s')" using il by simp
    from less.hyps[OF dec inv' this] show ?thesis unfolding r .
  qed
qed

lemma bfs_correct:
  assumes wf: "wf_adj adj" and src: "src < length adj"
  shows "\<exists>level. bfs adj src = Some level \<and> length level = length adj \<and>
             level ! src = 0 \<and> parents adj src level"
proof -
  let ?l = "(replicate (length adj) (-1))[src := 0]"
  have "bfs_inv adj src (?l, [src])"
    unfolding bfs_inv_def parents_def using src by (auto simp: nth_list_update)
  from bfs_loop_correct[OF wf this, of 0] show ?thesis unfolding bfs_def by simp
qed

lemma fold_bfs_edge_complete:
  assumes "fold (bfs_edge v) es (level, q) = (level', q')"
    and "\<forall>e \<in> set es. dto e < length level" and "v < length level" and "0 \<le> level ! v"
  shows "(\<exists>new. q' = q @ new) \<and> (\<forall>e \<in> set es. eps < dcap e \<longrightarrow> 0 \<le> level' ! dto e)"
  using assms
proof (induction es arbitrary: level q)
  case Nil
  then show ?case by simp
next
  case (Cons e es)
  obtain l1 q1 where one: "bfs_edge v e (level, q) = (l1, q1)" by (cases "bfs_edge v e (level, q)")
  have step: "fold (bfs_edge v) es (l1, q1) = (level', q')" using Cons.prems(1) one by simp
  have lt: "dto e < length level" using Cons.prems(2) by simp
  have l1: "length l1 = length level" and q1: "\<exists>new. q1 = q @ new"
    and v1: "0 \<le> l1 ! v" and e1: "eps < dcap e \<longrightarrow> 0 \<le> l1 ! dto e"
    using one lt Cons.prems(3,4) unfolding bfs_edge_def
    by (auto simp: nth_list_update split: if_splits)
  have p2: "\<forall>e \<in> set es. dto e < length l1" using Cons.prems(2) l1 by simp
  have p3: "v < length l1" using Cons.prems(3) l1 by simp
  from Cons.IH[OF step p2 p3 v1] have IH: "\<exists>new. q' = q1 @ new"
    "\<forall>e \<in> set es. eps < dcap e \<longrightarrow> 0 \<le> level' ! dto e" by simp_all
  have keep: "\<forall>x < length l1. 0 \<le> l1 ! x \<longrightarrow> level' ! x = l1 ! x"
    using fold_bfs_edge[OF step p2 p3 v1] by simp
  have "eps < dcap e \<longrightarrow> 0 \<le> level' ! dto e" using e1 keep lt l1 by auto
  moreover have "\<exists>new. q' = q @ new" using IH(1) q1 by auto
  ultimately show ?case using IH(2) by simp
qed

lemma bfs_inv2_step:
  assumes wf: "wf_adj adj" and inv: "bfs_inv adj src (level, q)" and inv2: "bfs_inv2 adj i (level, q)"
    and i: "i < length q"
  defines "s' \<equiv> fold (bfs_edge (q ! i)) (adj ! (q ! i)) (level, q)"
  shows "bfs_inv2 adj (Suc i) s'"
proof -
  let ?v = "q ! i"
  obtain level' q' where s': "s' = (level', q')" by (cases s')
  have len: "length level = length adj"
    and qs: "\<forall>x \<in> set q. x < length adj \<and> 0 \<le> level ! x"
    using inv unfolding bfs_inv_def by simp_all
  have a: "\<And>x. x < length adj \<Longrightarrow> 0 \<le> level ! x \<Longrightarrow> x \<in> set q"
    and b: "\<And>j y. j < i \<Longrightarrow> redge adj (q ! j) y \<Longrightarrow> 0 \<le> level ! y"
    using inv2 unfolding bfs_inv2_def by simp_all
  have vq: "?v \<in> set q" using i by simp
  then have vn: "?v < length level" and v0: "0 \<le> level ! ?v" using qs len by auto
  have rng: "\<forall>e \<in> set (adj ! ?v). dto e < length level"
    using wf_adj_dto[OF wf] vn len by simp
  have fo: "fold (bfs_edge ?v) (adj ! ?v) (level, q) = (level', q')" using s' s'_def by simp
  note F = fold_bfs_edge[OF fo rng vn v0]
  note G = fold_bfs_edge_complete[OF fo rng vn v0]
  have keep: "\<And>x. x < length adj \<Longrightarrow> 0 \<le> level ! x \<Longrightarrow> level' ! x = level ! x"
    using F len by simp
  have qset: "set q' = set q \<union> {x. x < length adj \<and> 0 \<le> level' ! x \<and> level ! x < 0}"
    using F len by simp
  obtain new where new: "q' = q @ new" using G by blast
  have c1: "\<forall>x < length adj. 0 \<le> level' ! x \<longrightarrow> x \<in> set q'"
  proof (intro allI impI)
    fix x assume x: "x < length adj" "0 \<le> level' ! x"
    show "x \<in> set q'"
    proof (cases "0 \<le> level ! x")
      case True
      then show ?thesis using a[OF x(1)] qset by simp
    next
      case False
      then show ?thesis using x qset by simp
    qed
  qed
  have c2: "\<forall>j < Suc i. \<forall>y. redge adj (q' ! j) y \<longrightarrow> 0 \<le> level' ! y"
  proof (intro allI impI)
    fix j y assume j: "j < Suc i" and r: "redge adj (q' ! j) y"
    have qj: "q' ! j = q ! j" using new j i by (simp add: nth_append)
    have yn: "y < length adj" using redge_in_range[OF wf r] .
    show "0 \<le> level' ! y"
    proof (cases "j = i")
      case True
      then have "redge adj ?v y" using r qj by simp
      then obtain e where "e \<in> set (adj ! ?v)" "eps < dcap e" "dto e = y"
        unfolding redge_def by blast
      then show ?thesis using G by blast
    next
      case False
      then have "j < i" using j by simp
      then have "0 \<le> level ! y" using b r qj by simp
      then show ?thesis using keep[OF yn] by simp
    qed
  qed
  show ?thesis unfolding bfs_inv2_def s' using c1 c2 by simp
qed

lemma bfs_loop_complete:
  assumes r: "bfs_loop adj0 i0 s0 = Some level0"
  shows "wf_adj adj0 \<longrightarrow> bfs_inv adj0 src s0 \<longrightarrow> i0 \<le> length (snd s0) \<longrightarrow> bfs_inv2 adj0 i0 s0 \<longrightarrow>
         closed_levels adj0 level0"
proof (rule bfs_loop.raw_induct[where P = "\<lambda>adj i s level.
    wf_adj adj \<longrightarrow> bfs_inv adj src s \<longrightarrow> i \<le> length (snd s) \<longrightarrow> bfs_inv2 adj i s \<longrightarrow>
    closed_levels adj level", OF _ r])
  fix loop :: "adjacency \<Rightarrow> nat \<Rightarrow> int list \<times> nat list \<Rightarrow> int list option"
  fix adj i s level
  assume IH: "\<And>adj i s level. loop adj i s = Some level \<Longrightarrow>
      wf_adj adj \<longrightarrow> bfs_inv adj src s \<longrightarrow> i \<le> length (snd s) \<longrightarrow> bfs_inv2 adj i s \<longrightarrow>
      closed_levels adj level"
    and eq: "(if i < length (snd s)
      then loop adj (Suc i) (fold (bfs_edge (snd s ! i)) (adj ! (snd s ! i)) s)
      else Some (fst s)) = Some level"
  show "wf_adj adj \<longrightarrow> bfs_inv adj src s \<longrightarrow> i \<le> length (snd s) \<longrightarrow> bfs_inv2 adj i s \<longrightarrow>
      closed_levels adj level"
  proof (intro impI)
    assume wf: "wf_adj adj" and inv0: "bfs_inv adj src s" and il0: "i \<le> length (snd s)"
      and inv20: "bfs_inv2 adj i s"
    obtain lv q where s: "s = (lv, q)" by (cases s)
    show "closed_levels adj level"
    proof (cases "i < length q")
      case True
      let ?s' = "fold (bfs_edge (q ! i)) (adj ! (q ! i)) (lv, q)"
      have e: "loop adj (Suc i) ?s' = Some level" using eq s True by simp
      have inv: "bfs_inv adj src (lv, q)" using inv0 s by simp
      have inv2: "bfs_inv2 adj i (lv, q)" using inv20 s by simp
      have a: "bfs_inv adj src ?s'" and b: "i < length (snd ?s')"
        using bfs_inv_step[OF wf inv True] by simp_all
      have c: "bfs_inv2 adj (Suc i) ?s'" using bfs_inv2_step[OF wf inv inv2 True] .
      show ?thesis using IH[OF e] wf a b c by simp
    next
      case False
      then have lv: "level = lv" and il: "i = length q" using eq il0 s by simp_all
      have a: "\<And>x. x < length adj \<Longrightarrow> 0 \<le> lv ! x \<Longrightarrow> x \<in> set q"
        and b: "\<And>j y. j < i \<Longrightarrow> redge adj (q ! j) y \<Longrightarrow> 0 \<le> lv ! y"
        using inv20 s unfolding bfs_inv2_def by simp_all
      show ?thesis unfolding closed_levels_def lv
      proof (intro allI impI)
        fix x y assume x: "x < length adj" "0 \<le> lv ! x" and e: "redge adj x y"
        from a[OF x] obtain j where "j < length q" "q ! j = x" by (auto simp: in_set_conv_nth)
        then show "0 \<le> lv ! y" using b[of j y] e il by simp
      qed
    qed
  qed
qed

lemma bfs_complete:
  assumes wf: "wf_adj adj" and src: "src < length adj" and b: "bfs adj src = Some level"
  shows "closed_levels adj level"
proof -
  let ?l = "(replicate (length adj) (-1))[src := 0]"
  have 1: "bfs_inv adj src (?l, [src])"
    unfolding bfs_inv_def parents_def using src by (auto simp: nth_list_update)
  have 2: "bfs_inv2 adj 0 (?l, [src])"
    unfolding bfs_inv2_def using src by (auto simp: nth_list_update split: if_splits)
  show ?thesis using bfs_loop_complete[OF b[unfolded bfs_def], of src] wf 1 2 by simp
qed

lemma closed_levels_rreach:
  assumes wf: "wf_adj adj" and src: "src < length adj" and cl: "closed_levels adj level"
    and l0: "level ! src = 0" and r: "rreach adj src x"
  shows "0 \<le> level ! x"
proof -
  have "(redge adj)\<^sup>*\<^sup>* src x" using r unfolding rreach_def .
  then show ?thesis
  proof (induction rule: rtranclp_induct)
    case base
    then show ?case using l0 by simp
  next
    case (step y z)
    have "y < length adj" using step.hyps(2) unfolding redge_def by simp
    then show ?case using cl step unfolding closed_levels_def by blast
  qed
qed

section \<open>Shape and cut capacity\<close>

lemma eps_pos: "0 < eps"
  by (simp add: eps_def)

lemma shape_length: "shape adj' = shape adj \<Longrightarrow> length adj' = length adj"
  unfolding shape_def by (metis length_map)

lemma shape_nth:
  assumes "shape adj' = shape adj" "u < length adj"
  shows "map (\<lambda>e. (dto e, drev e)) (adj' ! u) = map (\<lambda>e. (dto e, drev e)) (adj ! u)"
proof -
  have "length adj' = length adj" using assms(1) by (rule shape_length)
  then have "shape adj' ! u = map (\<lambda>e. (dto e, drev e)) (adj' ! u)"
    and "shape adj ! u = map (\<lambda>e. (dto e, drev e)) (adj ! u)"
    using assms(2) unfolding shape_def by simp_all
  then show ?thesis using assms(1) by simp
qed

lemma shape_row_length:
  assumes "shape adj' = shape adj" "u < length adj"
  shows "length (adj' ! u) = length (adj ! u)"
  using shape_nth[OF assms] by (metis length_map)

lemma shape_edge:
  assumes "shape adj' = shape adj" "u < length adj" "j < length (adj ! u)"
  shows "dto (adj' ! u ! j) = dto (adj ! u ! j)" "drev (adj' ! u ! j) = drev (adj ! u ! j)"
proof -
  have l: "j < length (adj' ! u)" using shape_row_length[OF assms(1,2)] assms(3) by simp
  have "map (\<lambda>e. (dto e, drev e)) (adj' ! u) ! j = map (\<lambda>e. (dto e, drev e)) (adj ! u) ! j"
    using shape_nth[OF assms(1,2)] by simp
  then have "(dto (adj' ! u ! j), drev (adj' ! u ! j)) = (dto (adj ! u ! j), drev (adj ! u ! j))"
    using l assms(3) by simp
  then show "dto (adj' ! u ! j) = dto (adj ! u ! j)" "drev (adj' ! u ! j) = drev (adj ! u ! j)"
    by simp_all
qed

lemma wf_adj_index:
  "wf_adj adj \<longleftrightarrow>
     (\<forall>u < length adj. \<forall>j < length (adj ! u).
        dto (adj ! u ! j) < length adj \<and> drev (adj ! u ! j) < length (adj ! dto (adj ! u ! j)) \<and>
        dto (adj ! dto (adj ! u ! j) ! drev (adj ! u ! j)) = u)"
  unfolding wf_adj_def by (simp add: all_set_conv_all_nth)

lemma wf_adj_shape:
  assumes sh: "shape adj' = shape adj" and wf: "wf_adj adj"
  shows "wf_adj adj'"
  unfolding wf_adj_index
proof (intro allI impI)
  fix u j assume u': "u < length adj'" and j': "j < length (adj' ! u)"
  have u: "u < length adj" using u' shape_length[OF sh] by simp
  have j: "j < length (adj ! u)" using j' shape_row_length[OF sh u] by simp
  let ?e = "adj ! u ! j"
  have e: "dto (adj' ! u ! j) = dto ?e" "drev (adj' ! u ! j) = drev ?e"
    using shape_edge[OF sh u j] by simp_all
  have w: "dto ?e < length adj" "drev ?e < length (adj ! dto ?e)"
    "dto (adj ! dto ?e ! drev ?e) = u"
    using wf u j unfolding wf_adj_index by simp_all
  have "dto (adj' ! dto ?e ! drev ?e) = dto (adj ! dto ?e ! drev ?e)"
    using shape_edge(1)[OF sh w(1) w(2)] .
  then show "dto (adj' ! u ! j) < length adj' \<and>
        drev (adj' ! u ! j) < length (adj' ! dto (adj' ! u ! j)) \<and>
        dto (adj' ! dto (adj' ! u ! j) ! drev (adj' ! u ! j)) = u"
    using e w shape_length[OF sh] shape_row_length[OF sh w(1)] by simp
qed

lemma shape_row_update:
  "map (\<lambda>e. (dto e, drev e)) (es[i := (es ! i)\<lparr>dcap := c\<rparr>]) = map (\<lambda>e. (dto e, drev e)) es"
  by (cases "i < length es") (simp_all add: map_update list_update_same_conv list_update_beyond)

lemma shape_update:
  assumes "map (\<lambda>e. (dto e, drev e)) es = map (\<lambda>e. (dto e, drev e)) (adj ! u)"
  shows "shape (adj[u := es]) = shape adj"
proof (cases "u < length adj")
  case True
  have "shape (adj[u := es]) = (shape adj)[u := map (\<lambda>e. (dto e, drev e)) es]"
    unfolding shape_def by (simp add: map_update)
  also have "\<dots> = (shape adj)[u := shape adj ! u]"
    using assms True unfolding shape_def by simp
  finally show ?thesis by simp
next
  case False
  then show ?thesis by (simp add: list_update_beyond)
qed

lemma shape_push_edge: "shape (push_edge v i tr adj) = shape adj"
proof -
  let ?e = "adj ! v ! i"
  let ?adj1 = "adj[v := (adj ! v)[i := ?e\<lparr>dcap := dcap ?e - tr\<rparr>]]"
  let ?r = "?adj1 ! dto ?e ! drev ?e"
  have 1: "shape ?adj1 = shape adj"
    by (rule shape_update) (rule shape_row_update)
  have 2: "shape (?adj1[dto ?e := (?adj1 ! dto ?e)[drev ?e := ?r\<lparr>dcap := dcap ?r + tr\<rparr>]]) = shape ?adj1"
    by (rule shape_update) (rule shape_row_update)
  show ?thesis unfolding push_edge_def Let_def using 1 2 by simp
qed

lemma push_edge_nth:
  assumes v: "v < length adj" and w: "dto (adj ! v ! i) = w" and ne: "v \<noteq> w"
    and r: "drev (adj ! v ! i) = r" and wn: "w < length adj"
  shows "push_edge v i tr adj ! u =
     (if u = w then (adj ! w)[r := (adj ! w ! r)\<lparr>dcap := dcap (adj ! w ! r) + tr\<rparr>]
      else if u = v then (adj ! v)[i := (adj ! v ! i)\<lparr>dcap := dcap (adj ! v ! i) - tr\<rparr>]
      else adj ! u)"
  using assms unfolding push_edge_def Let_def
  by (auto simp: nth_list_update)

lemma outcap_update:
  assumes "i < length es"
  shows "outcap R (es[i := (es ! i)\<lparr>dcap := c\<rparr>]) =
         outcap R es + (if dto (es ! i) \<in> R then 0 else c - dcap (es ! i))"
  using assms
proof (induction es arbitrary: i)
  case Nil
  then show ?case by simp
next
  case (Cons e es)
  show ?case
  proof (cases i)
    case 0
    then show ?thesis by (simp add: outcap_def)
  next
    case (Suc k)
    then have "k < length es" using Cons.prems by simp
    from Cons.IH[OF this] show ?thesis using Suc by (simp add: outcap_def)
  qed
qed

lemma push_edge_cutcap:
  assumes v: "v < length adj" and w: "w < length adj" and ne: "v \<noteq> w"
    and i: "i < length (adj ! v)" and tov: "dto (adj ! v ! i) = w" and rv: "drev (adj ! v ! i) = r"
    and r: "r < length (adj ! w)" and bk: "dto (adj ! w ! r) = v"
  shows "cutcap R (push_edge v i tr adj) =
         cutcap R adj + (if w \<in> R then tr else 0) - (if v \<in> R then tr else 0)"
proof -
  let ?adj' = "push_edge v i tr adj"
  let ?A = "{x. x < length adj \<and> x \<in> R}"
  have len: "length ?adj' = length adj" using shape_length[OF shape_push_edge] .
  have nth: "\<And>u. ?adj' ! u =
     (if u = w then (adj ! w)[r := (adj ! w ! r)\<lparr>dcap := dcap (adj ! w ! r) + tr\<rparr>]
      else if u = v then (adj ! v)[i := (adj ! v ! i)\<lparr>dcap := dcap (adj ! v ! i) - tr\<rparr>]
      else adj ! u)"
    using push_edge_nth[OF v tov ne rv w] by simp
  have d: "\<And>x. outcap R (?adj' ! x) - outcap R (adj ! x) =
      (if x = w then (if v \<in> R then 0 else tr) else 0) + (if x = v then (if w \<in> R then 0 else - tr) else 0)"
    using ne by (simp add: nth outcap_update[OF r] outcap_update[OF i] bk tov)
  have fin: "finite ?A" by simp
  have "cutcap R ?adj' - cutcap R adj = (\<Sum>x \<in> ?A. outcap R (?adj' ! x) - outcap R (adj ! x))"
    unfolding cutcap_def len by (simp add: sum_subtractf)
  also have "\<dots> = (\<Sum>x \<in> ?A. (if x = w then (if v \<in> R then 0 else tr) else 0))
                 + (\<Sum>x \<in> ?A. (if x = v then (if w \<in> R then 0 else - tr) else 0))"
    unfolding d by (rule sum.distrib)
  also have "\<dots> = (if w \<in> ?A then (if v \<in> R then 0 else tr) else 0)
                 + (if v \<in> ?A then (if w \<in> R then 0 else - tr) else 0)"
    using fin by (simp only: sum.delta)
  also have "\<dots> = (if w \<in> R then tr else 0) - (if v \<in> R then tr else 0)"
    using v w by simp
  finally show ?thesis by simp
qed

lemma on_grid_0: "on_grid m 0"
  unfolding on_grid_def by (rule exI[of _ 0]) simp

lemma on_grid_1: "0 < m \<Longrightarrow> on_grid m 1"
  unfolding on_grid_def by (rule exI[of _ "int m"]) simp

lemma on_grid_add: "on_grid m x \<Longrightarrow> on_grid m y \<Longrightarrow> on_grid m (x + y)"
  unfolding on_grid_def
proof -
  assume "\<exists>k::int. x = of_int k / of_nat m" "\<exists>k::int. y = of_int k / of_nat m"
  then obtain a b :: int where "x = of_int a / of_nat m" "y = of_int b / of_nat m" by blast
  then have "x + y = of_int (a + b) / of_nat m" by (simp add: add_divide_distrib)
  then show "\<exists>k::int. x + y = of_int k / of_nat m" by blast
qed

lemma on_grid_minus: "on_grid m x \<Longrightarrow> on_grid m (- x)"
  unfolding on_grid_def
proof -
  assume "\<exists>k::int. x = of_int k / of_nat m"
  then obtain a :: int where "x = of_int a / of_nat m" by blast
  then have "- x = of_int (- a) / of_nat m" by simp
  then show "\<exists>k::int. - x = of_int k / of_nat m" by blast
qed

lemma on_grid_diff: "on_grid m x \<Longrightarrow> on_grid m y \<Longrightarrow> on_grid m (x - y)"
  using on_grid_add[of m x "- y"] on_grid_minus[of m y] by simp

lemma on_grid_abs: "on_grid m x \<Longrightarrow> on_grid m \<bar>x\<bar>"
  using on_grid_minus[of m x] by (simp add: abs_if)

lemma on_grid_min: "on_grid m x \<Longrightarrow> on_grid m y \<Longrightarrow> on_grid m (min x y)"
  by (simp add: min_def)

lemma on_grid_small:
  assumes m: "0 < m" "m < 1000000000" and g: "on_grid m x" and x: "0 \<le> x" "x \<le> eps"
  shows "x = 0"
proof (rule ccontr)
  assume nz: "x \<noteq> 0"
  obtain k :: int where k: "x = of_int k / of_nat m" using g unfolding on_grid_def by blast
  have mp: "(0::rat) < of_nat m" using m(1) by simp
  have "0 < x" using nz x(1) by simp
  then have "(0::rat) < of_int k" using k mp by (simp add: zero_less_divide_iff)
  then have "1 \<le> k" by simp
  then have "(1::rat) \<le> of_int k" by simp
  then have low: "1 / of_nat m \<le> x" unfolding k using mp by (simp add: divide_le_cancel)
  have "m \<le> 999999999" using m(2) by simp
  then have "(of_nat m :: rat) \<le> of_nat 999999999" by (simp only: of_nat_le_iff)
  then have "(of_nat m :: rat) \<le> 999999999" by simp
  then have "(of_nat m :: rat) * eps \<le> 999999999 * eps" using eps_pos by (simp add: mult_right_mono)
  moreover have "999999999 * eps < 1" by (simp add: eps_def)
  ultimately have "(of_nat m :: rat) * eps < 1" by linarith
  then have "eps < 1 / of_nat m" using mp by (simp add: field_simps)
  then show False using x(2) low by simp
qed

lemma grid_caps_push_edge:
  assumes "grid_caps m adj" "on_grid m tr"
  shows "grid_caps m (push_edge v i tr adj)"
proof -
  have row: "\<forall>e \<in> set (es[j := (es ! j)\<lparr>dcap := dcap (es ! j) + c\<rparr>]). on_grid m (dcap e)"
    if "\<forall>e \<in> set es. on_grid m (dcap e)" "on_grid m c" for es :: "DinicEdge list" and j c
  proof (cases "j < length es")
    case True
    have "on_grid m (dcap (es ! j) + c)" using that True on_grid_add by simp
    then show ?thesis using that(1) True by (auto simp: set_update_memI dest!: set_update_subset_insert[THEN subsetD])
  next
    case False
    then show ?thesis using that(1) by (simp add: list_update_beyond)
  qed
  have upd: "grid_caps m (a[u := (a ! u)[j := (a ! u ! j)\<lparr>dcap := dcap (a ! u ! j) + c\<rparr>]])"
    if "grid_caps m a" "on_grid m c" for a u j c
    unfolding grid_caps_def
  proof (intro allI impI)
    fix x assume x: "x < length (a[u := (a ! u)[j := (a ! u ! j)\<lparr>dcap := dcap (a ! u ! j) + c\<rparr>]])"
    then have xa: "x < length a" by simp
    show "\<forall>e \<in> set (a[u := (a ! u)[j := (a ! u ! j)\<lparr>dcap := dcap (a ! u ! j) + c\<rparr>]] ! x). on_grid m (dcap e)"
    proof (cases "x = u")
      case True
      have "\<forall>e \<in> set (a ! u). on_grid m (dcap e)" using that(1) xa True unfolding grid_caps_def by simp
      from row[OF this that(2)] show ?thesis using True xa by simp
    next
      case False
      then show ?thesis using that(1) xa unfolding grid_caps_def by simp
    qed
  qed
  let ?e = "adj ! v ! i"
  let ?adj1 = "adj[v := (adj ! v)[i := ?e\<lparr>dcap := dcap ?e + (- tr)\<rparr>]]"
  have 1: "grid_caps m ?adj1" by (rule upd[OF assms(1) on_grid_minus[OF assms(2)]])
  have "grid_caps m (?adj1[dto ?e := (?adj1 ! dto ?e)[drev ?e :=
      (?adj1 ! dto ?e ! drev ?e)\<lparr>dcap := dcap (?adj1 ! dto ?e ! drev ?e) + tr\<rparr>]])"
    by (rule upd[OF 1 assms(2)])
  then show ?thesis unfolding push_edge_def Let_def by simp
qed

section \<open>One augmentation\<close>

lemma augmented_sink: "0 \<le> tr \<Longrightarrow> augmented sink level adj sink tr adj"
  unfolding augmented_def by simp

lemma push_edge_augmented:
  assumes wf: "wf_adj adj" and v: "v < length adj" and i: "i < length (adj ! v)"
    and w: "w = dto (adj ! v ! i)" and lv: "level ! w = level ! v + 1"
    and sub: "augmented sink level adj w tr adj1"
    and tr0: "0 < tr" and trc: "tr \<le> dcap (adj ! v ! i)"
  shows "augmented sink level adj v tr (push_edge v i tr adj1)"
proof -
  let ?e = "adj ! v ! i"
  let ?r = "drev ?e"
  let ?adj' = "push_edge v i tr adj1"
  have sh1: "shape adj1 = shape adj"
    and fr1: "\<And>u. u < length adj \<Longrightarrow> level ! u < level ! w \<Longrightarrow> adj1 ! u = adj ! u"
    and dr1: "\<And>u j. u < length adj \<Longrightarrow> j < length (adj ! u) \<Longrightarrow> dcap (adj ! u ! j) - tr \<le> dcap (adj1 ! u ! j)"
    and up1: "\<And>u j. u < length adj \<Longrightarrow> j < length (adj ! u) \<Longrightarrow> dcap (adj1 ! u ! j) \<le> dcap (adj ! u ! j) + tr"
    and ni1: "\<And>u j. u < length adj \<Longrightarrow> level ! u \<le> level ! w \<Longrightarrow> j < length (adj ! u) \<Longrightarrow>
        dcap (adj1 ! u ! j) \<le> dcap (adj ! u ! j)"
    and nn1: "caps_nonneg adj \<Longrightarrow> caps_nonneg adj1"
    and cc1: "\<And>R. cutcap R adj1 = cutcap R adj + (if sink \<in> R then tr else 0) - (if w \<in> R then tr else 0)"
    using sub unfolding augmented_def by simp_all
  have len1: "length adj1 = length adj" using shape_length[OF sh1] .
  have ein: "?e \<in> set (adj ! v)" using i by simp
  have wn: "w < length adj" and rn: "?r < length (adj ! w)" and bk: "dto (adj ! w ! ?r) = v"
    using wf v ein w unfolding wf_adj_def by simp_all
  have ne: "v \<noteq> w" using lv by auto
  have rowv: "adj1 ! v = adj ! v" using fr1[OF v] lv by simp
  have rn1: "?r < length (adj1 ! w)" using rn shape_row_length[OF sh1 wn] by simp
  have bk1: "dto (adj1 ! w ! ?r) = v" using shape_edge(1)[OF sh1 wn rn] bk by simp
  have v1: "v < length adj1" and wn1: "w < length adj1" using v wn len1 by simp_all
  have i1: "i < length (adj1 ! v)" using i rowv by simp
  have to1: "dto (adj1 ! v ! i) = w" and rv1: "drev (adj1 ! v ! i) = ?r" using rowv w by simp_all
  have nth: "\<And>u. ?adj' ! u =
     (if u = w then (adj1 ! w)[?r := (adj1 ! w ! ?r)\<lparr>dcap := dcap (adj1 ! w ! ?r) + tr\<rparr>]
      else if u = v then (adj ! v)[i := ?e\<lparr>dcap := dcap ?e - tr\<rparr>]
      else adj1 ! u)"
    using push_edge_nth[OF v1 to1 ne rv1 wn1] rowv by simp
  have c1: "shape ?adj' = shape adj" using shape_push_edge sh1 by simp
  have c2: "\<forall>u < length adj. level ! u < level ! v \<longrightarrow> ?adj' ! u = adj ! u"
  proof (intro allI impI)
    fix u assume u: "u < length adj" "level ! u < level ! v"
    then have "u \<noteq> v" "u \<noteq> w" "level ! u < level ! w" using lv by auto
    then show "?adj' ! u = adj ! u" using nth fr1 u by simp
  qed
  have c3: "\<forall>u < length adj. \<forall>j < length (adj ! u). dcap (adj ! u ! j) - tr \<le> dcap (?adj' ! u ! j)"
  proof (intro allI impI)
    fix u j assume u: "u < length adj" and j: "j < length (adj ! u)"
    have d: "dcap (adj ! u ! j) - tr \<le> dcap (adj1 ! u ! j)" using dr1[OF u j] .
    consider "u = w" | "u = v" | "u \<noteq> w" "u \<noteq> v" by blast
    then show "dcap (adj ! u ! j) - tr \<le> dcap (?adj' ! u ! j)"
    proof cases
      case 1
      have j1: "j < length (adj1 ! w)" using j 1 shape_row_length[OF sh1 wn] by simp
      show ?thesis using d tr0 1 j1 by (cases "j = ?r") (simp_all add: nth)
    next
      case 2
      show ?thesis using tr0 2 ne j by (cases "j = i") (simp_all add: nth)
    next
      case 3
      then show ?thesis using d by (simp add: nth)
    qed
  qed
  have c6: "\<forall>u < length adj. \<forall>j < length (adj ! u). dcap (?adj' ! u ! j) \<le> dcap (adj ! u ! j) + tr"
  proof (intro allI impI)
    fix u j assume u: "u < length adj" and j: "j < length (adj ! u)"
    have d: "dcap (adj1 ! u ! j) \<le> dcap (adj ! u ! j) + tr" using up1[OF u j] .
    consider "u = w" | "u = v" | "u \<noteq> w" "u \<noteq> v" by blast
    then show "dcap (?adj' ! u ! j) \<le> dcap (adj ! u ! j) + tr"
    proof cases
      case 1
      have j1: "j < length (adj1 ! w)" using j 1 shape_row_length[OF sh1 wn] by simp
      have "dcap (adj1 ! w ! j) \<le> dcap (adj ! w ! j)" using ni1[OF wn _ ] j 1 by simp
      then show ?thesis using d tr0 1 j1 by (cases "j = ?r") (simp_all add: nth)
    next
      case 2
      show ?thesis using tr0 2 ne j by (cases "j = i") (simp_all add: nth)
    next
      case 3
      then show ?thesis using d by (simp add: nth)
    qed
  qed
  have c7: "\<forall>u < length adj. level ! u \<le> level ! v \<longrightarrow>
        (\<forall>j < length (adj ! u). dcap (?adj' ! u ! j) \<le> dcap (adj ! u ! j))"
  proof (intro allI impI)
    fix u j assume u: "u < length adj" and l: "level ! u \<le> level ! v" and j: "j < length (adj ! u)"
    have uw: "u \<noteq> w" using l lv by auto
    show "dcap (?adj' ! u ! j) \<le> dcap (adj ! u ! j)"
    proof (cases "u = v")
      case True
      show ?thesis using tr0 True ne j by (cases "j = i") (simp_all add: nth)
    next
      case False
      have "level ! u \<le> level ! w" using l lv by simp
      from ni1[OF u this j] show ?thesis using False uw by (simp add: nth)
    qed
  qed
  have c4: "caps_nonneg adj \<longrightarrow> caps_nonneg ?adj'"
  proof
    assume nn: "caps_nonneg adj"
    have n1: "\<And>u j. u < length adj \<Longrightarrow> j < length (adj1 ! u) \<Longrightarrow> 0 \<le> dcap (adj1 ! u ! j)"
      using nn1[OF nn] len1 unfolding caps_nonneg_def by simp
    show "caps_nonneg ?adj'"
      unfolding caps_nonneg_def
    proof (intro allI impI)
      fix u j assume u': "u < length ?adj'" and j': "j < length (?adj' ! u)"
      have u: "u < length adj" using u' shape_length[OF c1] by simp
      have j: "j < length (adj ! u)" using j' shape_row_length[OF c1 u] by simp
      have j1: "j < length (adj1 ! u)" using j shape_row_length[OF sh1 u] by simp
      consider "u = w" | "u = v" | "u \<noteq> w" "u \<noteq> v" by blast
      then show "0 \<le> dcap (?adj' ! u ! j)"
      proof cases
        case 1
        show ?thesis using n1[OF u j1] tr0 1 j1 by (cases "j = ?r") (simp_all add: nth)
      next
        case 2
        have "0 \<le> dcap (adj ! v ! j)" using n1[OF u j1] 2 rowv by simp
        then show ?thesis using trc 2 ne j by (cases "j = i") (simp_all add: nth)
      next
        case 3
        then show ?thesis using n1[OF u j1] by (simp add: nth)
      qed
    qed
  qed
  have c5: "\<forall>R. cutcap R ?adj' = cutcap R adj + (if sink \<in> R then tr else 0) - (if v \<in> R then tr else 0)"
  proof
    fix R
    have "cutcap R ?adj' = cutcap R adj1 + (if w \<in> R then tr else 0) - (if v \<in> R then tr else 0)"
      by (rule push_edge_cutcap[OF v1 wn1 ne i1 to1 rv1 rn1 bk1])
    then show "cutcap R ?adj' = cutcap R adj + (if sink \<in> R then tr else 0) - (if v \<in> R then tr else 0)"
      unfolding cc1 by simp
  qed
  show ?thesis unfolding augmented_def using c1 c2 c3 c6 c7 c4 c5 by blast
qed

lemma dfs_at_sink: "dfs sink level sink (Fin p) st = Some (st, p)"
  by (subst dfs.simps) simp

lemma dfs_exhausted:
  assumes "v \<noteq> sink" "pushed \<noteq> Fin 0" "\<not> it ! v < length (adj ! v)"
  shows "dfs sink level v pushed (adj, it) = Some ((adj, it), 0)"
  using assms by (subst dfs.simps) simp

lemma dfs_skip:
  assumes "v \<noteq> sink" "pushed \<noteq> Fin 0" "it ! v < length (adj ! v)"
    "\<not> (eps < dcap (adj ! v ! (it ! v)) \<and> level ! dto (adj ! v ! (it ! v)) = level ! v + 1)"
  shows "dfs sink level v pushed (adj, it) = dfs sink level v pushed (adj, it[v := it ! v + 1])"
  using assms by (subst dfs.simps) (auto simp add: Let_def)

lemma dfs_descend:
  assumes "v \<noteq> sink" "pushed \<noteq> Fin 0" "it ! v < length (adj ! v)"
    "eps < dcap (adj ! v ! (it ! v))" "level ! dto (adj ! v ! (it ! v)) = level ! v + 1"
    "dfs sink level (dto (adj ! v ! (it ! v))) (Fin (num_min pushed (dcap (adj ! v ! (it ! v))))) (adj, it)
       = Some ((adj1, it1), tr)"
  shows "dfs sink level v pushed (adj, it) =
     (if 0 < tr then Some ((push_edge v (it ! v) tr adj1, it1), tr)
      else dfs sink level v pushed (adj1, it1[v := it1 ! v + 1]))"
  using assms by (subst dfs.simps) (simp add: Let_def)

section \<open>The depth-first search returns\<close>

lemma dead_advance:
  assumes d: "dead sink level adj it" and v: "v < length it"
    and slot: "\<not> (eps < dcap (adj ! v ! (it ! v)) \<and> level ! dto (adj ! v ! (it ! v)) = level ! v + 1 \<and>
           lreach sink level adj (dto (adj ! v ! (it ! v))))"
  shows "dead sink level adj (it[v := it ! v + 1])"
  unfolding dead_def
proof (intro allI impI)
  fix u j assume u: "u < length adj" and j: "j < length (adj ! u)" and lt: "j < it[v := it ! v + 1] ! u"
  show "\<not> (eps < dcap (adj ! u ! j) \<and> level ! dto (adj ! u ! j) = level ! u + 1 \<and>
           lreach sink level adj (dto (adj ! u ! j)))"
  proof (cases "u = v")
    case False
    then have "j < it ! u" using lt by simp
    then show ?thesis using d u j unfolding dead_def by blast
  next
    case True
    then have "j < it ! v \<or> j = it ! v" using lt v by auto
    then show ?thesis
    proof
      assume "j < it ! v"
      then show ?thesis using d u j True unfolding dead_def by blast
    next
      assume "j = it ! v"
      then show ?thesis using slot True by simp
    qed
  qed
qed

lemma dead_exhausted:
  assumes d: "dead sink level adj it" and ne: "v \<noteq> sink" and ex: "\<not> it ! v < length (adj ! v)"
  shows "\<not> lreach sink level adj v"
proof
  assume "lreach sink level adj v"
  then show False
  proof (cases rule: lreach.cases)
    case lreach_sink
    then show ?thesis using ne by simp
  next
    case (lreach_step j)
    have "j < it ! v" using lreach_step(2) ex by simp
    then show ?thesis using d lreach_step unfolding dead_def by blast
  qed
qed

lemma dfs_post_advance:
  assumes post: "dfs_post sink level adj (it1[v := it1 ! v + 1]) v pushed res"
    and len: "length it1 = length it"
    and frame: "\<forall>u < length adj. level ! u < level ! v \<longrightarrow> it1 ! u = it ! u"
    and dd: "dead sink level adj it \<Longrightarrow> dead sink level adj (it1[v := it1 ! v + 1])"
  shows "dfs_post sink level adj it v pushed res"
proof -
  let ?it2 = "it1[v := it1 ! v + 1]"
  have a1: "length (snd (fst res)) = length ?it2"
    and a2: "\<forall>u < length adj. level ! u < level ! v \<longrightarrow> snd (fst res) ! u = ?it2 ! u"
    and a3: "\<forall>p. pushed = Fin p \<longrightarrow> snd res \<le> p"
    and a5: "\<forall>m. grid_caps m adj \<longrightarrow> (\<forall>p. pushed = Fin p \<longrightarrow> on_grid m p) \<longrightarrow>
          on_grid m (snd res) \<and> grid_caps m (fst (fst res))"
    and a4: "snd res = 0 \<and> fst (fst res) = adj \<and>
        (dead sink level adj ?it2 \<longrightarrow> dead sink level adj (snd (fst res)) \<and> \<not> lreach sink level adj v)
      \<or> eps < snd res \<and> augmented sink level adj v (snd res) (fst (fst res))"
    using post unfolding dfs_post_def by simp_all
  have b1: "length (snd (fst res)) = length it" using a1 len by simp
  have b2: "\<forall>u < length adj. level ! u < level ! v \<longrightarrow> snd (fst res) ! u = it ! u"
  proof (intro allI impI)
    fix u assume u: "u < length adj" "level ! u < level ! v"
    then have "u \<noteq> v" by auto
    then have "?it2 ! u = it1 ! u" by simp
    then show "snd (fst res) ! u = it ! u" using a2 frame u by simp
  qed
  have b4: "snd res = 0 \<and> fst (fst res) = adj \<and>
        (dead sink level adj it \<longrightarrow> dead sink level adj (snd (fst res)) \<and> \<not> lreach sink level adj v)
      \<or> eps < snd res \<and> augmented sink level adj v (snd res) (fst (fst res))"
    using a4 dd by blast
  show ?thesis unfolding dfs_post_def using b1 b2 a3 a5 b4 by simp
qed

lemma dfs_total:
  assumes wf: "wf_adj adj" and lenl: "length level = length adj" and sinkn: "sink < length adj"
  shows "length it = length adj \<Longrightarrow> v < length adj \<Longrightarrow> pushed_ok sink v pushed \<Longrightarrow>
         \<exists>res. dfs sink level v pushed (adj, it) = Some res \<and> dfs_post sink level adj it v pushed res"
proof -
  define R :: "((nat \<times> nat list) \<times> (nat \<times> nat list)) set" where
    "R = measures [\<lambda>x. nat (Max (set level) - level ! fst x), \<lambda>x. length (adj ! fst x) - snd x ! fst x]"
  have wfR: "wf R" unfolding R_def by simp
  have main: "\<forall>pushed. length (snd x) = length adj \<longrightarrow> fst x < length adj \<longrightarrow> pushed_ok sink (fst x) pushed \<longrightarrow>
         (\<exists>res. dfs sink level (fst x) pushed (adj, snd x) = Some res \<and>
                dfs_post sink level adj (snd x) (fst x) pushed res)" for x
  proof (induction x rule: wf_induct_rule[OF wfR])
    case (1 x)
    obtain v it where x: "x = (v, it)" by (cases x)
    have IH: "\<And>v' it' pushed'. ((v', it'), (v, it)) \<in> R \<Longrightarrow> length it' = length adj \<Longrightarrow>
        v' < length adj \<Longrightarrow> pushed_ok sink v' pushed' \<Longrightarrow>
        \<exists>res. dfs sink level v' pushed' (adj, it') = Some res \<and> dfs_post sink level adj it' v' pushed' res"
      using 1 x by force
    show ?case unfolding x fst_conv snd_conv
    proof (intro allI impI)
      fix pushed
      assume lit: "length it = length adj" and vn: "v < length adj" and pok: "pushed_ok sink v pushed"
      show "\<exists>res. dfs sink level v pushed (adj, it) = Some res \<and> dfs_post sink level adj it v pushed res"
      proof (cases "v = sink")
        case True
        then obtain p where p: "pushed = Fin p" "eps < p"
          using pok unfolding pushed_ok_def by (cases pushed) auto
        have r: "dfs sink level v pushed (adj, it) = Some ((adj, it), p)"
          using True p dfs_at_sink by simp
        have "0 \<le> p" using p(2) eps_pos by simp
        then have "augmented sink level adj v p adj" using True augmented_sink by simp
        then have "dfs_post sink level adj it v pushed ((adj, it), p)"
          unfolding dfs_post_def using p by simp
        then show ?thesis using r by simp
      next
        case False
        have nz: "pushed \<noteq> Fin 0" using pok eps_pos unfolding pushed_ok_def by (cases pushed) auto
        show ?thesis
        proof (cases "it ! v < length (adj ! v)")
          case ex: False
          have r: "dfs sink level v pushed (adj, it) = Some ((adj, it), 0)"
            using dfs_exhausted[OF False nz ex] .
          have "\<forall>p. pushed = Fin p \<longrightarrow> 0 \<le> p"
            using pok eps_pos unfolding pushed_ok_def by auto
          moreover have "dead sink level adj it \<longrightarrow> \<not> lreach sink level adj v"
            using dead_exhausted[OF _ False ex] by blast
          ultimately have "dfs_post sink level adj it v pushed ((adj, it), 0)"
            unfolding dfs_post_def using on_grid_0 by simp
          then show ?thesis using r by simp
        next
          case i: True
          let ?i = "it ! v"
          let ?e = "adj ! v ! ?i"
          have dec2: "((v, it[v := ?i + 1]), (v, it)) \<in> R"
            unfolding R_def using i vn lit by simp
          show ?thesis
          proof (cases "eps < dcap ?e \<and> level ! dto ?e = level ! v + 1")
            case adm: False
            let ?it2 = "it[v := ?i + 1]"
            have r: "dfs sink level v pushed (adj, it) = dfs sink level v pushed (adj, ?it2)"
              using dfs_skip[OF False nz i adm] .
            have "length ?it2 = length adj" using lit by simp
            from IH[OF dec2 this vn pok] obtain res where
              res: "dfs sink level v pushed (adj, ?it2) = Some res"
              and post: "dfs_post sink level adj ?it2 v pushed res" by blast
            have dd: "dead sink level adj it \<Longrightarrow> dead sink level adj ?it2"
            proof -
              assume d: "dead sink level adj it"
              show "dead sink level adj ?it2"
                by (rule dead_advance[OF d]) (use adm vn lit in auto)
            qed
            have "dfs_post sink level adj it v pushed res"
              by (rule dfs_post_advance[OF post _ _ dd]) simp_all
            then show ?thesis using r res by simp
          next
            case adm: True
            let ?w = "dto ?e"
            let ?p = "Fin (num_min pushed (dcap ?e))"
            have ein: "?e \<in> set (adj ! v)" using i by simp
            have wn: "?w < length adj" using wf_adj_dto[OF wf vn ein] .
            have pok': "pushed_ok sink ?w ?p"
              using pok adm unfolding pushed_ok_def by (cases pushed) auto
            have "level ! ?w \<le> Max (set level)"
              using wn lenl by simp
            then have dec1: "((?w, it), (v, it)) \<in> R"
              unfolding R_def using adm by simp
            from IH[OF dec1 lit wn pok'] obtain res1 where
              res1: "dfs sink level ?w ?p (adj, it) = Some res1"
              and post1: "dfs_post sink level adj it ?w ?p res1" by blast
            obtain adj1 it1 tr where r1: "res1 = ((adj1, it1), tr)"
              by (cases res1) auto
            have l1: "length it1 = length it"
              and f1: "\<forall>u < length adj. level ! u < level ! ?w \<longrightarrow> it1 ! u = it ! u"
              and t1: "tr \<le> num_min pushed (dcap ?e)"
              and g1: "\<forall>m. grid_caps m adj \<longrightarrow> on_grid m (num_min pushed (dcap ?e)) \<longrightarrow>
                  on_grid m tr \<and> grid_caps m adj1"
              and alt: "tr = 0 \<and> adj1 = adj \<and>
                  (dead sink level adj it \<longrightarrow> dead sink level adj it1 \<and> \<not> lreach sink level adj ?w)
                \<or> eps < tr \<and> augmented sink level adj ?w tr adj1"
              using post1 unfolding dfs_post_def r1 by simp_all
            have r: "dfs sink level v pushed (adj, it) =
               (if 0 < tr then Some ((push_edge v ?i tr adj1, it1), tr)
                else dfs sink level v pushed (adj1, it1[v := it1 ! v + 1]))"
              using dfs_descend[OF False nz i _ _ res1[unfolded r1]] adm by simp
            have fr: "\<forall>u < length adj. level ! u < level ! v \<longrightarrow> it1 ! u = it ! u"
              using f1 adm by simp
            have itv: "it1 ! v = ?i" using f1 vn adm by simp
            from alt show ?thesis
            proof
              assume fail: "tr = 0 \<and> adj1 = adj \<and>
                  (dead sink level adj it \<longrightarrow> dead sink level adj it1 \<and> \<not> lreach sink level adj ?w)"
              let ?it2 = "it1[v := it1 ! v + 1]"
              have r': "dfs sink level v pushed (adj, it) = dfs sink level v pushed (adj, ?it2)"
                using r fail by simp
              have dec2': "((v, ?it2), (v, it)) \<in> R"
                unfolding R_def using i vn lit l1 itv by simp
              have "length ?it2 = length adj" using lit l1 by simp
              from IH[OF dec2' this vn pok] obtain res where
                res: "dfs sink level v pushed (adj, ?it2) = Some res"
                and post: "dfs_post sink level adj ?it2 v pushed res" by blast
              have dd: "dead sink level adj it \<Longrightarrow> dead sink level adj ?it2"
              proof -
                assume "dead sink level adj it"
                then have d1: "dead sink level adj it1" and nl: "\<not> lreach sink level adj ?w"
                  using fail by simp_all
                show "dead sink level adj ?it2"
                  by (rule dead_advance[OF d1]) (use vn lit l1 itv nl in simp_all)
              qed
              have "dfs_post sink level adj it v pushed res"
                by (rule dfs_post_advance[OF post l1 fr dd])
              then show ?thesis using r' res by simp
            next
              assume suc: "eps < tr \<and> augmented sink level adj ?w tr adj1"
              then have tr0: "0 < tr" using eps_pos by simp
              have r': "dfs sink level v pushed (adj, it) = Some ((push_edge v ?i tr adj1, it1), tr)"
                using r tr0 by simp
              have trc: "tr \<le> dcap ?e" using t1 by (cases pushed) simp_all
              have trp: "\<forall>p. pushed = Fin p \<longrightarrow> tr \<le> p" using t1 by auto
              have aug: "augmented sink level adj v tr (push_edge v ?i tr adj1)"
                by (rule push_edge_augmented[OF wf vn i refl _ _ tr0 trc]) (use adm suc in simp_all)
              have gr: "\<forall>m. grid_caps m adj \<longrightarrow> (\<forall>p. pushed = Fin p \<longrightarrow> on_grid m p) \<longrightarrow>
                  on_grid m tr \<and> grid_caps m (push_edge v ?i tr adj1)"
              proof (intro allI impI)
                fix m assume ga: "grid_caps m adj" and gp: "\<forall>p. pushed = Fin p \<longrightarrow> on_grid m p"
                have ge: "on_grid m (dcap ?e)" using ga vn ein unfolding grid_caps_def by blast
                have "on_grid m (num_min pushed (dcap ?e))"
                  using gp ge by (cases pushed) (simp_all add: on_grid_min)
                then have "on_grid m tr" "grid_caps m adj1" using g1 ga by blast+
                then show "on_grid m tr \<and> grid_caps m (push_edge v ?i tr adj1)"
                  using grid_caps_push_edge by blast
              qed
              have "dfs_post sink level adj it v pushed ((push_edge v ?i tr adj1, it1), tr)"
                unfolding dfs_post_def using l1 fr trp suc aug gr by simp
              then show ?thesis using r' by simp
            qed
          qed
        qed
      qed
    qed
  qed
  show "length it = length adj \<Longrightarrow> v < length adj \<Longrightarrow> pushed_ok sink v pushed \<Longrightarrow>
         \<exists>res. dfs sink level v pushed (adj, it) = Some res \<and> dfs_post sink level adj it v pushed res"
    using main[of "(v, it)"] by simp
qed

section \<open>The flow loops return\<close>

lemma units_less:
  assumes "0 \<le> y" "y + eps < x"
  shows "units y < units x"
proof -
  have "y / eps + 1 = (y + eps) / eps" using eps_pos by (simp add: field_simps)
  also have "\<dots> \<le> x / eps" using assms(2) eps_pos by (simp add: divide_le_cancel)
  finally have "\<lfloor>y / eps + 1\<rfloor> \<le> \<lfloor>x / eps\<rfloor>" by (rule floor_mono)
  then have "\<lfloor>y / eps\<rfloor> + 1 \<le> \<lfloor>x / eps\<rfloor>" by simp
  moreover have "0 \<le> \<lfloor>y / eps\<rfloor>" using assms(1) eps_pos by simp
  ultimately show ?thesis unfolding units_def by linarith
qed

lemma outcap_nonneg: "\<forall>j < length es. 0 \<le> dcap (es ! j) \<Longrightarrow> 0 \<le> outcap R es"
  unfolding outcap_def by (rule sum_list_nonneg) (auto simp: in_set_conv_nth)

lemma cutcap_nonneg: "caps_nonneg adj \<Longrightarrow> 0 \<le> cutcap R adj"
  unfolding cutcap_def caps_nonneg_def by (rule sum_nonneg) (simp add: outcap_nonneg)

lemma flow_rel_refl: "caps_nonneg adj \<Longrightarrow> flow_rel src sink adj adj"
  unfolding flow_rel_def by simp

lemma flow_rel_step:
  assumes fr: "flow_rel src sink adj0 adj" and aug: "augmented sink level adj src tr adj'"
    and ne: "src \<noteq> sink"
  shows "flow_rel src sink adj0 adj' \<and> srccap src adj' = srccap src adj - tr"
proof -
  have sh: "shape adj = shape adj0" and nn: "caps_nonneg adj"
    and dr: "\<And>u j. u < length adj0 \<Longrightarrow> j < length (adj0 ! u) \<Longrightarrow>
        dcap (adj0 ! u ! j) - dcap (adj ! u ! j) \<le> srccap src adj0 - srccap src adj"
    and ur: "\<And>u j. u < length adj0 \<Longrightarrow> j < length (adj0 ! u) \<Longrightarrow>
        dcap (adj ! u ! j) - dcap (adj0 ! u ! j) \<le> srccap src adj0 - srccap src adj"
    and ct: "\<And>R. src \<in> R \<Longrightarrow> sink \<notin> R \<Longrightarrow> cutcap R adj0 - cutcap R adj = srccap src adj0 - srccap src adj"
    using fr unfolding flow_rel_def by simp_all
  have sh': "shape adj' = shape adj"
    and dr': "\<And>u j. u < length adj \<Longrightarrow> j < length (adj ! u) \<Longrightarrow> dcap (adj ! u ! j) - tr \<le> dcap (adj' ! u ! j)"
    and ur': "\<And>u j. u < length adj \<Longrightarrow> j < length (adj ! u) \<Longrightarrow> dcap (adj' ! u ! j) \<le> dcap (adj ! u ! j) + tr"
    and nn': "caps_nonneg adj'"
    and ct': "\<And>R. cutcap R adj' = cutcap R adj + (if sink \<in> R then tr else 0) - (if src \<in> R then tr else 0)"
    using aug nn unfolding augmented_def by simp_all
  have phi: "srccap src adj' = srccap src adj - tr"
    unfolding srccap_def using ct'[of "{src}"] ne by simp
  have c3: "\<forall>u < length adj0. \<forall>j < length (adj0 ! u).
        dcap (adj0 ! u ! j) - dcap (adj' ! u ! j) \<le> srccap src adj0 - srccap src adj'"
  proof (intro allI impI)
    fix u j assume u: "u < length adj0" and j: "j < length (adj0 ! u)"
    have u': "u < length adj" using u shape_length[OF sh] by simp
    have j': "j < length (adj ! u)" using j shape_row_length[OF sh u] by simp
    show "dcap (adj0 ! u ! j) - dcap (adj' ! u ! j) \<le> srccap src adj0 - srccap src adj'"
      using dr[OF u j] dr'[OF u' j'] phi by simp
  qed
  have c3': "\<forall>u < length adj0. \<forall>j < length (adj0 ! u).
        dcap (adj' ! u ! j) - dcap (adj0 ! u ! j) \<le> srccap src adj0 - srccap src adj'"
  proof (intro allI impI)
    fix u j assume u: "u < length adj0" and j: "j < length (adj0 ! u)"
    have u': "u < length adj" using u shape_length[OF sh] by simp
    have j': "j < length (adj ! u)" using j shape_row_length[OF sh u] by simp
    show "dcap (adj' ! u ! j) - dcap (adj0 ! u ! j) \<le> srccap src adj0 - srccap src adj'"
      using ur[OF u j] ur'[OF u' j'] phi by simp
  qed
  have c4: "\<forall>R. src \<in> R \<longrightarrow> sink \<notin> R \<longrightarrow> cutcap R adj0 - cutcap R adj' = srccap src adj0 - srccap src adj'"
  proof (intro allI impI)
    fix R assume R: "src \<in> R" "sink \<notin> R"
    show "cutcap R adj0 - cutcap R adj' = srccap src adj0 - srccap src adj'"
      using ct[OF R] ct'[of R] R phi by simp
  qed
  have "flow_rel src sink adj0 adj'"
    unfolding flow_rel_def using sh sh' nn' c3 c3' c4 by simp
  then show ?thesis using phi by simp
qed

lemma parents_lreach:
  assumes par: "parents adj src level"
  shows "x < length adj \<Longrightarrow> 0 \<le> level ! x \<Longrightarrow> lreach sink level adj x \<Longrightarrow> lreach sink level adj src"
proof (induction "nat (level ! x)" arbitrary: x rule: less_induct)
  case less
  show ?case
  proof (cases "x = src")
    case True
    then show ?thesis using less.prems by simp
  next
    case False
    then obtain y where y: "y < length adj" "0 \<le> level ! y" "level ! x = level ! y + 1" "redge adj y x"
      using par less.prems(1,2) unfolding parents_def by blast
    from y(4) obtain j where j: "j < length (adj ! y)" "eps < dcap (adj ! y ! j)" "dto (adj ! y ! j) = x"
      unfolding redge_def by (auto simp: in_set_conv_nth)
    have "lreach sink level adj y"
      by (rule lreach_step[OF y(1) j(1) j(2)]) (use j(3) y(3) less.prems(3) in simp_all)
    moreover have "nat (level ! y) < nat (level ! x)" using y(2,3) by simp
    ultimately show ?thesis using less.hyps y(1,2) by blast
  qed
qed

lemma dead_start: "dead sink level adj (replicate (length adj) 0)"
  unfolding dead_def by simp

lemma augment_total:
  assumes lenl: "length level = length adj0" and srcn: "src < length adj0"
    and sinkn: "sink < length adj0" and ne: "src \<noteq> sink" and wf0: "wf_adj adj0"
  shows "flow_rel src sink adj0 adj \<Longrightarrow> length it = length adj0 \<Longrightarrow>
         \<exists>res. augment sink level src (adj, it) fl = Some res \<and>
               flow_rel src sink adj0 (fst (fst res)) \<and>
               srccap src (fst (fst res)) \<le> srccap src adj \<and>
               (\<forall>m. grid_caps m adj \<longrightarrow> grid_caps m (fst (fst res))) \<and>
               (dead sink level adj it \<longrightarrow> lreach sink level adj src \<longrightarrow>
                  srccap src (fst (fst res)) + eps < srccap src adj)"
proof (induction "units (srccap src adj)" arbitrary: adj it fl rule: less_induct)
  case less
  have sh: "shape adj = shape adj0" and nn: "caps_nonneg adj"
    using less.prems(1) unfolding flow_rel_def by simp_all
  have len: "length adj = length adj0" using shape_length[OF sh] .
  have wf: "wf_adj adj" using wf_adj_shape[OF sh wf0] .
  have pok: "pushed_ok sink src PosInf" using ne unfolding pushed_ok_def by simp
  from dfs_total[OF wf _ _ _ _ pok, of level it] lenl srcn sinkn len less.prems(2)
  obtain res1 where res1: "dfs sink level src PosInf (adj, it) = Some res1"
    and post1: "dfs_post sink level adj it src PosInf res1" by auto
  obtain adj1 it1 tr where r1: "res1 = ((adj1, it1), tr)" by (cases res1) auto
  have l1: "length it1 = length it"
    and g1: "\<forall>m. grid_caps m adj \<longrightarrow> on_grid m tr \<and> grid_caps m adj1"
    and alt: "tr = 0 \<and> adj1 = adj \<and>
        (dead sink level adj it \<longrightarrow> dead sink level adj it1 \<and> \<not> lreach sink level adj src)
      \<or> eps < tr \<and> augmented sink level adj src tr adj1"
    using post1 unfolding dfs_post_def r1 by simp_all
  have r: "augment sink level src (adj, it) fl =
      (if 0 < tr then augment sink level src (adj1, it1) (fl + tr) else Some ((adj1, it1), fl))"
    using res1 r1 by (subst augment.simps) simp
  from alt show ?case
  proof
    assume fail: "tr = 0 \<and> adj1 = adj \<and>
        (dead sink level adj it \<longrightarrow> dead sink level adj it1 \<and> \<not> lreach sink level adj src)"
    then have "augment sink level src (adj, it) fl = Some ((adj, it1), fl)" using r by simp
    then show ?thesis using less.prems(1) fail by auto
  next
    assume suc: "eps < tr \<and> augmented sink level adj src tr adj1"
    then have tr0: "0 < tr" using eps_pos by simp
    from flow_rel_step[OF less.prems(1) _ ne] suc
    have fr1: "flow_rel src sink adj0 adj1" and phi: "srccap src adj1 = srccap src adj - tr"
      by blast+
    have "caps_nonneg adj1" using fr1 unfolding flow_rel_def by simp
    then have "0 \<le> srccap src adj1" unfolding srccap_def by (rule cutcap_nonneg)
    moreover have lt: "srccap src adj1 + eps < srccap src adj" using phi suc by simp
    ultimately have dec: "units (srccap src adj1) < units (srccap src adj)" by (rule units_less)
    have "length it1 = length adj0" using l1 less.prems(2) by simp
    from less.hyps[OF dec fr1 this, of "fl + tr"] obtain res where
      res: "augment sink level src (adj1, it1) (fl + tr) = Some res"
      and fr: "flow_rel src sink adj0 (fst (fst res))"
      and le: "srccap src (fst (fst res)) \<le> srccap src adj1"
      and gr: "\<forall>m. grid_caps m adj1 \<longrightarrow> grid_caps m (fst (fst res))" by blast
    have gr': "\<forall>m. grid_caps m adj \<longrightarrow> grid_caps m (fst (fst res))" using g1 gr by blast
    have "augment sink level src (adj, it) fl = Some res" using r tr0 res by simp
    then show ?thesis using fr le lt eps_pos gr' by auto
  qed
qed

lemma maxFlow_loop_total:
  assumes srcn: "src < length adj0" and sinkn: "sink < length adj0" and ne: "src \<noteq> sink"
    and wf0: "wf_adj adj0"
  shows "flow_rel src sink adj0 adj \<Longrightarrow>
         \<exists>res. maxFlow_loop src sink adj fl = Some res \<and> flow_rel src sink adj0 (fst res) \<and>
               \<not> rreach (fst res) src sink \<and> (\<forall>m. grid_caps m adj \<longrightarrow> grid_caps m (fst res))"
proof (induction "units (srccap src adj)" arbitrary: adj fl rule: less_induct)
  case less
  have sh: "shape adj = shape adj0" using less.prems unfolding flow_rel_def by simp
  have len: "length adj = length adj0" using shape_length[OF sh] .
  have wf: "wf_adj adj" using wf_adj_shape[OF sh wf0] .
  from bfs_correct[OF wf, of src] srcn len obtain level where
    b: "bfs adj src = Some level" and ll: "length level = length adj"
    and l0: "level ! src = 0" and par: "parents adj src level" by auto
  have r: "maxFlow_loop src sink adj fl =
      (if 0 \<le> level ! sink
       then Option.bind (augment sink level src (adj, replicate (length adj) 0) fl)
              (\<lambda>r. maxFlow_loop src sink (fst (fst r)) (snd r))
       else Some (adj, fl))"
    using b by (subst maxFlow_loop.simps) simp
  show ?case
  proof (cases "0 \<le> level ! sink")
    case False
    have sr: "src < length adj" "sink < length adj" using srcn sinkn len by simp_all
    have "closed_levels adj level" using bfs_complete[OF wf sr(1) b] .
    then have "\<not> rreach adj src sink"
      using closed_levels_rreach[OF wf sr(1) _ l0] False by blast
    then show ?thesis using r less.prems False by simp
  next
    case True
    have lr: "lreach sink level adj src"
      by (rule parents_lreach[OF par _ True lreach_sink]) (use sinkn len in simp)
    have "length level = length adj0" using ll len by simp
    have ds: "dead sink level adj (replicate (length adj) 0)" by (rule dead_start)
    have "length (replicate (length adj) (0::nat)) = length adj0" using len by simp
    from augment_total[OF \<open>length level = length adj0\<close> srcn sinkn ne wf0 less.prems this, of fl]
    obtain res1 where a: "augment sink level src (adj, replicate (length adj) 0) fl = Some res1"
      and fr1: "flow_rel src sink adj0 (fst (fst res1))"
      and gr1: "\<forall>m. grid_caps m adj \<longrightarrow> grid_caps m (fst (fst res1))"
      and imp: "dead sink level adj (replicate (length adj) 0) \<longrightarrow> lreach sink level adj src \<longrightarrow>
                  srccap src (fst (fst res1)) + eps < srccap src adj"
      by blast
    have lt: "srccap src (fst (fst res1)) + eps < srccap src adj" using imp ds lr by simp
    have "caps_nonneg (fst (fst res1))" using fr1 unfolding flow_rel_def by simp
    then have "0 \<le> srccap src (fst (fst res1))" unfolding srccap_def by (rule cutcap_nonneg)
    then have dec: "units (srccap src (fst (fst res1))) < units (srccap src adj)"
      using lt by (rule units_less)
    from less.hyps[OF dec fr1, of "snd res1"] obtain res where
      "maxFlow_loop src sink (fst (fst res1)) (snd res1) = Some res"
      "flow_rel src sink adj0 (fst res)" "\<not> rreach (fst res) src sink"
      "\<forall>m. grid_caps m (fst (fst res1)) \<longrightarrow> grid_caps m (fst res)" by blast
    then show ?thesis using r True a gr1 by simp
  qed
qed

lemma maxFlow_total:
  assumes "src < length adj" "sink < length adj" "src \<noteq> sink" "wf_adj adj" "caps_nonneg adj"
  shows "\<exists>res. maxFlow adj src sink = Some res \<and> flow_rel src sink adj (fst res) \<and>
               \<not> rreach (fst res) src sink \<and> (\<forall>m. grid_caps m adj \<longrightarrow> grid_caps m (fst res))"
  unfolding maxFlow_def
  by (rule maxFlow_loop_total[OF assms(1-4) flow_rel_refl[OF assms(5)]])

section \<open>Adding edges\<close>

lemma length_addEdge: "length (addEdge u v c adj) = length adj"
  unfolding addEdge_def Let_def by simp

lemma addEdge_nth:
  assumes "u < length adj" "v < length adj"
  shows "addEdge u v c adj ! x =
     (if x = v then
        (if u = v then adj ! u @ [\<lparr>dto = v, drev = length (adj ! v), dcap = c\<rparr>,
                                 \<lparr>dto = u, drev = length (adj ! u), dcap = 0\<rparr>]
         else adj ! v @ [\<lparr>dto = u, drev = length (adj ! u), dcap = 0\<rparr>])
      else if x = u then adj ! u @ [\<lparr>dto = v, drev = length (adj ! v), dcap = c\<rparr>]
      else adj ! x)"
  using assms unfolding addEdge_def Let_def by (auto simp: nth_list_update)

lemma addEdge_prefix:
  assumes "u < length adj" "v < length adj"
  shows "\<exists>ys. addEdge u v c adj ! x = adj ! x @ ys"
  using addEdge_nth[OF assms, of c x] by auto

lemma wf_adj_addEdge:
  assumes wf: "wf_adj adj" and u: "u < length adj" and v: "v < length adj"
  shows "wf_adj (addEdge u v c adj)"
  unfolding wf_adj_def length_addEdge
proof (intro allI impI ballI)
  let ?new = "addEdge u v c adj"
  let ?fwd = "\<lparr>dto = v, drev = length (adj ! v), dcap = c\<rparr>"
  let ?rv = "\<lparr>dto = u, drev = length (adj ! u), dcap = 0\<rparr>"
  fix x e assume x: "x < length adj" and e: "e \<in> set (?new ! x)"
  note nth = addEdge_nth[OF u v, of c]
  have old: "dto e < length adj \<and> drev e < length (?new ! dto e) \<and> dto (?new ! dto e ! drev e) = x"
    if "e \<in> set (adj ! x)"
  proof -
    have a: "dto e < length adj" "drev e < length (adj ! dto e)" "dto (adj ! dto e ! drev e) = x"
      using wf x that unfolding wf_adj_def by simp_all
    obtain ys where ys: "?new ! dto e = adj ! dto e @ ys" using addEdge_prefix[OF u v] by blast
    show ?thesis using a unfolding ys by (simp add: nth_append)
  qed
  have fwd: "dto ?fwd < length adj \<and> drev ?fwd < length (?new ! dto ?fwd) \<and>
             dto (?new ! dto ?fwd ! drev ?fwd) = u"
    using v by (simp add: nth nth_append)
  have rv: "dto ?rv < length adj \<and> drev ?rv < length (?new ! dto ?rv) \<and>
             dto (?new ! dto ?rv ! drev ?rv) = v"
    using u by (simp add: nth nth_append)
  have "set (?new ! x) = set (adj ! x) \<union> (if x = u then {?fwd} else {}) \<union> (if x = v then {?rv} else {})"
    unfolding nth by auto
  then have "e \<in> set (adj ! x) \<or> (e = ?fwd \<and> x = u) \<or> (e = ?rv \<and> x = v)"
    using e by (auto split: if_splits)
  then consider "e \<in> set (adj ! x)" | "e = ?fwd" "x = u" | "e = ?rv" "x = v"
    by blast
  then show "dto e < length adj \<and> drev e < length (?new ! dto e) \<and> dto (?new ! dto e ! drev e) = x"
  proof cases
    case 1 then show ?thesis by (rule old)
  next
    case 2 then show ?thesis using fwd by simp
  next
    case 3 then show ?thesis using rv by simp
  qed
qed

lemma caps_nonneg_mem: "caps_nonneg adj \<longleftrightarrow> (\<forall>u < length adj. \<forall>e \<in> set (adj ! u). 0 \<le> dcap e)"
  unfolding caps_nonneg_def by (simp add: all_set_conv_all_nth)

lemma caps_nonneg_addEdge:
  assumes "caps_nonneg adj" "u < length adj" "v < length adj" "0 \<le> c"
  shows "caps_nonneg (addEdge u v c adj)"
  using assms unfolding caps_nonneg_mem length_addEdge
  by (auto simp: addEdge_nth split: if_splits)

lemma outcap_append: "outcap R (xs @ ys) = outcap R xs + outcap R ys"
  unfolding outcap_def by simp

lemma cutcap_addEdge:
  assumes u: "u < length adj" and v: "v < length adj"
  shows "cutcap R (addEdge u v c adj) = cutcap R adj + (if u \<in> R \<and> v \<notin> R then c else 0)"
proof -
  let ?new = "addEdge u v c adj"
  let ?A = "{x. x < length adj \<and> x \<in> R}"
  have fin: "finite ?A" by simp
  have d: "\<And>x. outcap R (?new ! x) - outcap R (adj ! x) = (if x = u then (if v \<in> R then 0 else c) else 0)"
    by (auto simp: addEdge_nth[OF u v] outcap_append outcap_def)
  have "cutcap R ?new - cutcap R adj = (\<Sum>x \<in> ?A. outcap R (?new ! x) - outcap R (adj ! x))"
    unfolding cutcap_def length_addEdge by (simp add: sum_subtractf)
  also have "\<dots> = (\<Sum>x \<in> ?A. (if x = u then (if v \<in> R then 0 else c) else 0))"
    unfolding d ..
  also have "\<dots> = (if u \<in> ?A then (if v \<in> R then 0 else c) else 0)"
    using fin by (simp only: sum.delta)
  also have "\<dots> = (if u \<in> R \<and> v \<notin> R then c else 0)" using u by simp
  finally show ?thesis by simp
qed

lemma has_slot_addEdge_new:
  assumes "u < length adj" "v < length adj"
  shows "has_slot (addEdge u v c adj) u v c"
proof -
  let ?j = "length (adj ! u)"
  have "?j < length (addEdge u v c adj ! u) \<and> dto (addEdge u v c adj ! u ! ?j) = v \<and>
        dcap (addEdge u v c adj ! u ! ?j) = c"
    by (simp add: addEdge_nth[OF assms] nth_append)
  then show ?thesis unfolding has_slot_def by blast
qed

lemma has_slot_addEdge_old:
  assumes "u < length adj" "v < length adj" "has_slot adj x w c'"
  shows "has_slot (addEdge u v c adj) x w c'"
proof -
  obtain j where j: "j < length (adj ! x)" "dto (adj ! x ! j) = w" "dcap (adj ! x ! j) = c'"
    using assms(3) unfolding has_slot_def by blast
  obtain ys where ys: "addEdge u v c adj ! x = adj ! x @ ys" using addEdge_prefix[OF assms(1,2)] by blast
  have "j < length (addEdge u v c adj ! x) \<and> dto (addEdge u v c adj ! x ! j) = w \<and>
        dcap (addEdge u v c adj ! x ! j) = c'"
    using j unfolding ys by (simp add: nth_append)
  then show ?thesis unfolding has_slot_def by blast
qed

lemma findIndex_Some:
  "findIndex P xs = Some i \<Longrightarrow> i < length xs \<and> P (xs ! i) \<and> (\<forall>j < i. \<not> P (xs ! j))"
proof (induction xs arbitrary: i)
  case Nil
  then show ?case by simp
next
  case (Cons x xs)
  show ?case
  proof (cases "P x")
    case True
    then show ?thesis using Cons.prems by simp
  next
    case False
    then obtain k where k: "findIndex P xs = Some k" "i = Suc k" using Cons.prems by auto
    from Cons.IH[OF k(1)] show ?thesis using k(2) False by (auto simp: less_Suc_eq_0_disj)
  qed
qed

lemma findIndex_None: "findIndex P xs = None \<longleftrightarrow> (\<forall>x \<in> set xs. \<not> P x)"
  by (induction xs) auto

section \<open>The network of a graph\<close>

lemma wf_adj_replicate: "wf_adj (replicate m [])"
  unfolding wf_adj_def by simp

lemma caps_nonneg_replicate: "caps_nonneg (replicate m [])"
  unfolding caps_nonneg_def by simp

lemma net_inv_replicate: "m = n + 2 \<Longrightarrow> net_inv n (replicate m [])"
  unfolding net_inv_def by (intro conjI wf_adj_replicate caps_nonneg_replicate) simp

lemma net_inv_start: "net_inv n (replicate (n + 2) [])"
  by (rule net_inv_replicate) simp

lemma cutcap_start: "cutcap R (replicate m []) = 0"
  unfolding cutcap_def by (simp add: outcap_def)

lemma add_chunk_inv:
  assumes "fst ic < n" "net_inv n adj"
  shows "net_inv n (add_chunk p ic adj) \<and>
         cutcap R (add_chunk p ic adj) = cutcap R adj + chunk_cut R p ic"
proof -
  have len: "length adj = n + 2" and wf: "wf_adj adj" and nn: "caps_nonneg adj"
    using assms(2) unfolding net_inv_def by simp_all
  have node: "fst ic + 2 < length adj" "0 < length adj" "1 < length adj" using assms(1) len by simp_all
  show ?thesis
  proof (cases "weight0 (snd ic) - p \<ge> 0")
    case True
    then have eq: "add_chunk p ic adj = addEdge 0 (fst ic + 2) (weight0 (snd ic) - p) adj"
      unfolding add_chunk_def Let_def by simp
    show ?thesis unfolding eq net_inv_def length_addEdge
      using wf_adj_addEdge[OF wf node(2) node(1)] caps_nonneg_addEdge[OF nn node(2) node(1) True]
        cutcap_addEdge[OF node(2) node(1), of R] len True
      by (simp add: chunk_cut_def)
  next
    case False
    then have eq: "add_chunk p ic adj = addEdge (fst ic + 2) 1 (- (weight0 (snd ic) - p)) adj"
      unfolding add_chunk_def Let_def by simp
    have c: "0 \<le> - (weight0 (snd ic) - p)" using False by simp
    show ?thesis unfolding eq net_inv_def length_addEdge
      using wf_adj_addEdge[OF wf node(1) node(3)] caps_nonneg_addEdge[OF nn node(1) node(3) c]
        cutcap_addEdge[OF node(1) node(3), of R] len False
      by (simp add: chunk_cut_def)
  qed
qed

lemma fold_add_chunk_inv:
  "k + length cs \<le> n \<Longrightarrow> net_inv n adj \<Longrightarrow>
   net_inv n (fold (add_chunk p) (enumerate k cs) adj) \<and>
   cutcap R (fold (add_chunk p) (enumerate k cs) adj) =
     cutcap R adj + sum_list (map (chunk_cut R p) (enumerate k cs))"
proof (induction cs arbitrary: k adj)
  case Nil
  then show ?case by simp
next
  case (Cons c cs)
  have "fst (k, c) < n" using Cons.prems(1) by simp
  from add_chunk_inv[OF this Cons.prems(2), of p R]
  have a: "net_inv n (add_chunk p (k, c) adj)"
    and b: "cutcap R (add_chunk p (k, c) adj) = cutcap R adj + chunk_cut R p (k, c)" by simp_all
  have "Suc k + length cs \<le> n" using Cons.prems(1) by simp
  from Cons.IH[OF this a] show ?case using b by simp
qed

lemma add_dep_inv:
  assumes "net_inv (length cs) adj" "0 \<le> c"
  shows "net_inv (length cs) (add_dep cs c e adj) \<and>
         cutcap R (add_dep cs c e adj) = cutcap R adj + dep_cut R cs c e \<and>
         (has_slot adj x w c' \<longrightarrow> has_slot (add_dep cs c e adj) x w c') \<and>
         (\<forall>f t. findIndex (\<lambda>x. chunk_id x = e_from e) cs = Some f \<longrightarrow>
                findIndex (\<lambda>x. chunk_id x = e_to e) cs = Some t \<longrightarrow>
                has_slot (add_dep cs c e adj) (f + 2) (t + 2) c)"
proof -
  have len: "length adj = length cs + 2" and wf: "wf_adj adj" and nn: "caps_nonneg adj"
    using assms(1) unfolding net_inv_def by simp_all
  show ?thesis
  proof (cases "findIndex (\<lambda>x. chunk_id x = e_from e) cs")
    case None
    then show ?thesis using assms(1) unfolding add_dep_def dep_cut_def by simp
  next
    case (Some f)
    note f = this
    show ?thesis
    proof (cases "findIndex (\<lambda>x. chunk_id x = e_to e) cs")
      case None
      then show ?thesis using assms(1) f unfolding add_dep_def dep_cut_def by simp
    next
      case (Some t)
      have fn: "f + 2 < length adj" using findIndex_Some[OF f] len by simp
      have tn: "t + 2 < length adj" using findIndex_Some[OF Some] len by simp
      have eq: "add_dep cs c e adj = addEdge (f + 2) (t + 2) c adj"
        unfolding add_dep_def using f Some by simp
      have dc: "dep_cut R cs c e = (if f + 2 \<in> R \<and> t + 2 \<notin> R then c else 0)"
        unfolding dep_cut_def using f Some by simp
      show ?thesis unfolding eq dc net_inv_def length_addEdge
        using wf_adj_addEdge[OF wf fn tn] caps_nonneg_addEdge[OF nn fn tn assms(2)]
          cutcap_addEdge[OF fn tn, of R c] len has_slot_addEdge_new[OF fn tn, of c]
          has_slot_addEdge_old[OF fn tn, of x w c' c] f Some
        by simp
    qed
  qed
qed

lemma fold_add_dep_inv:
  "net_inv (length cs) adj \<Longrightarrow> 0 \<le> c \<Longrightarrow>
   net_inv (length cs) (fold (add_dep cs c) es adj) \<and>
   cutcap R (fold (add_dep cs c) es adj) = cutcap R adj + sum_list (map (dep_cut R cs c) es) \<and>
   (has_slot adj x w c' \<longrightarrow> has_slot (fold (add_dep cs c) es adj) x w c')"
proof (induction es arbitrary: adj)
  case Nil
  then show ?case by simp
next
  case (Cons e es)
  from add_dep_inv[OF Cons.prems, of e R x w c']
  have a: "net_inv (length cs) (add_dep cs c e adj)"
    and b: "cutcap R (add_dep cs c e adj) = cutcap R adj + dep_cut R cs c e"
    and d: "has_slot adj x w c' \<longrightarrow> has_slot (add_dep cs c e adj) x w c'" by blast+
  from Cons.IH[OF a Cons.prems(2)] show ?case using b d by simp
qed

lemma fold_add_dep_slot:
  "net_inv (length cs) adj \<Longrightarrow> 0 \<le> c \<Longrightarrow> e \<in> set es \<Longrightarrow>
   findIndex (\<lambda>x. chunk_id x = e_from e) cs = Some f \<Longrightarrow>
   findIndex (\<lambda>x. chunk_id x = e_to e) cs = Some t \<Longrightarrow>
   has_slot (fold (add_dep cs c) es adj) (f + 2) (t + 2) c"
proof (induction es arbitrary: adj)
  case Nil
  then show ?case by simp
next
  case (Cons e' es)
  from add_dep_inv[OF Cons.prems(1,2), of e']
  have a: "net_inv (length cs) (add_dep cs c e' adj)" by blast
  show ?case
  proof (cases "e = e'")
    case True
    from add_dep_inv[OF Cons.prems(1,2), of e'] Cons.prems(4,5) True
    have "has_slot (add_dep cs c e' adj) (f + 2) (t + 2) c" by blast
    then show ?thesis using fold_add_dep_inv[OF a Cons.prems(2), where es = es and x = "f + 2" and w = "t + 2" and c' = c] by simp
  next
    case False
    then have "e \<in> set es" using Cons.prems(3) by simp
    from Cons.IH[OF a Cons.prems(2) this Cons.prems(4,5)] show ?thesis by simp
  qed
qed

lemma fold_add_abs: "fold (\<lambda>w acc. acc + f w) ws (a::rat) = a + sum_list (map f ws)"
  by (induction ws arbitrary: a) (simp_all add: add.assoc)

lemma INF_of_eq: "INF_of ws p = sum_list (map (\<lambda>w. \<bar>w - p\<bar>) ws) + 1"
  unfolding INF_of_def by (simp add: fold_add_abs)

lemma INF_of_ge1: "1 \<le> INF_of ws p"
proof -
  have "0 \<le> sum_list (map (\<lambda>w. \<bar>w - p\<bar>) ws)" by (rule sum_list_nonneg) auto
  then show ?thesis unfolding INF_of_eq by simp
qed

lemma network_alt:
  "network g p = fold (add_dep (chunksOf g) (INF_g g p)) (edges g)
           (fold (add_chunk p) (enumerate 0 (chunksOf g)) (replicate (length (chunksOf g) + 2) []))"
  unfolding network_def chunksOf_def INF_g_def Let_def by simp

lemma network_inv: "net_inv (length (chunksOf g)) (network g p)"
proof -
  have 1: "net_inv (length (chunksOf g))
     (fold (add_chunk p) (enumerate 0 (chunksOf g)) (replicate (length (chunksOf g) + 2) []))"
    using fold_add_chunk_inv[OF _ net_inv_start, of 0 "chunksOf g" "length (chunksOf g)"] by simp
  have 2: "0 \<le> INF_g g p" using INF_of_ge1[of "map weight0 (chunksOf g)" p] unfolding INF_g_def by simp
  show ?thesis unfolding network_alt using fold_add_dep_inv[OF 1 2] by blast
qed

lemma network_cutcap:
  "cutcap R (network g p) =
     sum_list (map (chunk_cut R p) (enumerate 0 (chunksOf g))) +
     sum_list (map (dep_cut R (chunksOf g) (INF_g g p)) (edges g))"
proof -
  have 1: "net_inv (length (chunksOf g))
     (fold (add_chunk p) (enumerate 0 (chunksOf g)) (replicate (length (chunksOf g) + 2) []))"
    and c1: "cutcap R (fold (add_chunk p) (enumerate 0 (chunksOf g)) (replicate (length (chunksOf g) + 2) []))
       = sum_list (map (chunk_cut R p) (enumerate 0 (chunksOf g)))"
    using fold_add_chunk_inv[OF _ net_inv_start, of 0 "chunksOf g" "length (chunksOf g)" p R]
    unfolding cutcap_start by simp_all
  have 2: "0 \<le> INF_g g p" using INF_of_ge1[of "map weight0 (chunksOf g)" p] unfolding INF_g_def by simp
  show ?thesis unfolding network_alt using fold_add_dep_inv[OF 1 2, where R = R] c1 by simp
qed

lemma network_slot:
  assumes "e \<in> set (edges g)"
    "findIndex (\<lambda>x. chunk_id x = e_from e) (chunksOf g) = Some f"
    "findIndex (\<lambda>x. chunk_id x = e_to e) (chunksOf g) = Some t"
  shows "has_slot (network g p) (f + 2) (t + 2) (INF_g g p)"
proof -
  have 1: "net_inv (length (chunksOf g))
     (fold (add_chunk p) (enumerate 0 (chunksOf g)) (replicate (length (chunksOf g) + 2) []))"
    using fold_add_chunk_inv[OF _ net_inv_start, of 0 "chunksOf g" "length (chunksOf g)"] by simp
  have 2: "0 \<le> INF_g g p" using INF_of_ge1[of "map weight0 (chunksOf g)" p] unfolding INF_g_def by simp
  show ?thesis unfolding network_alt by (rule fold_add_dep_slot[OF 1 2 assms])
qed

lemma chunk_cut_src_le: "chunk_cut {0} p ic \<le> \<bar>weight0 (snd ic) - p\<bar>"
  unfolding chunk_cut_def by simp

lemma dep_cut_src: "dep_cut {0} cs c e = 0"
  unfolding dep_cut_def by (simp split: option.splits)

lemma network_srccap: "srccap 0 (network g p) \<le> INF_g g p - 1"
proof -
  have "sum_list (map (chunk_cut {0} p) (enumerate k cs)) \<le> sum_list (map (\<lambda>w. \<bar>w - p\<bar>) (map weight0 cs))"
    for k cs
  proof (induction cs arbitrary: k)
    case Nil
    then show ?case by simp
  next
    case (Cons c cs)
    show ?case using Cons.IH[of "Suc k"] chunk_cut_src_le[of p "(k, c)"] by simp
  qed
  then have "sum_list (map (chunk_cut {0} p) (enumerate 0 (chunksOf g))) \<le> INF_g g p - 1"
    unfolding INF_g_def INF_of_eq by simp
  moreover have "sum_list (map (dep_cut {0} (chunksOf g) (INF_g g p)) es) = 0" for es
    by (induction es) (simp_all add: dep_cut_src)
  ultimately show ?thesis unfolding srccap_def network_cutcap by simp
qed

section \<open>The Closure Builder\<close>

lemma closure_of_subseq: "subseq (closure_of cs reach) (map chunk_id cs)"
proof -
  have "subseq (map (chunk_id \<circ> snd) (filter (\<lambda>ic. reach ! (fst ic + 2)) (enumerate 0 cs)))
               (map (chunk_id \<circ> snd) (enumerate 0 cs))"
    by (rule subseq_map) (rule subseq_filter_left)
  moreover have "map (chunk_id \<circ> snd) (enumerate 0 cs) = map chunk_id cs"
    by (simp add: map_snd_enumerate flip: map_map)
  ultimately show ?thesis unfolding closure_of_def by simp
qed

lemma closure_of_set:
  "x \<in> set (closure_of cs reach) \<longleftrightarrow> (\<exists>i < length cs. reach ! (i + 2) \<and> x = chunk_id (cs ! i))"
proof
  assume "x \<in> set (closure_of cs reach)"
  then obtain ic where ic: "ic \<in> set (enumerate 0 cs)" "reach ! (fst ic + 2)" "x = chunk_id (snd ic)"
    unfolding closure_of_def by auto
  then have "fst ic < length cs" "cs ! fst ic = snd ic" by (simp_all add: in_set_enumerate_eq)
  then show "\<exists>i < length cs. reach ! (i + 2) \<and> x = chunk_id (cs ! i)" using ic by auto
next
  assume "\<exists>i < length cs. reach ! (i + 2) \<and> x = chunk_id (cs ! i)"
  then obtain i where i: "i < length cs" "reach ! (i + 2)" "x = chunk_id (cs ! i)" by blast
  then have "(i, cs ! i) \<in> set (enumerate 0 cs)" by (simp add: in_set_enumerate_eq)
  then have "(i, cs ! i) \<in> set (filter (\<lambda>ic. reach ! (fst ic + 2)) (enumerate 0 cs))"
    using i(2) by simp
  then have "(chunk_id \<circ> snd) (i, cs ! i) \<in> set (closure_of cs reach)"
    unfolding closure_of_def by (metis imageI set_map)
  then show "x \<in> set (closure_of cs reach)" using i(3) by simp
qed

lemma buildClosure_empty:
  assumes "chunksOf g = []"
  shows "buildClosure g p = Some \<lparr>closure = [], totalWeight = 0, csize = 0, penalty = Some p\<rparr>"
  using assms unfolding buildClosure_def chunksOf_def by simp

lemma buildClosure_nonempty:
  assumes "chunksOf g \<noteq> []"
  shows "\<exists>adj' reach. solved g p adj' reach \<and>
     buildClosure g p = Some \<lparr>closure = closure_of (chunksOf g) reach,
        totalWeight = sum_weights g (closure_of (chunksOf g) reach),
        csize = length (closure_of (chunksOf g) reach), penalty = Some p\<rparr>"
proof -
  let ?net = "network g p"
  have inv: "net_inv (length (chunksOf g)) ?net" by (rule network_inv)
  then have len: "length ?net = length (chunksOf g) + 2" and wf: "wf_adj ?net" and nn: "caps_nonneg ?net"
    unfolding net_inv_def by simp_all
  have "0 < length ?net" "1 < length ?net" using len by simp_all
  from maxFlow_total[OF this _ wf nn] obtain res where
    mf: "maxFlow ?net 0 1 = Some res" and fr: "flow_rel 0 1 ?net (fst res)"
    and nr: "\<not> rreach (fst res) 0 1"
    and gc: "\<forall>m. grid_caps m ?net \<longrightarrow> grid_caps m (fst res)" by auto
  have sh: "shape (fst res) = shape ?net" using fr unfolding flow_rel_def by simp
  have wf': "wf_adj (fst res)" using wf_adj_shape[OF sh wf] .
  have len': "length (fst res) = length (chunksOf g) + 2" using shape_length[OF sh] len by simp
  then have "0 < length (fst res)" by simp
  from reachable_correct[OF wf' this] obtain reach where
    re: "reachable (fst res) 0 = Some reach" and rl: "length reach = length (fst res)"
    and rr: "\<forall>v < length (fst res). reach ! v \<longleftrightarrow> rreach (fst res) 0 v" by blast
  have "solved g p (fst res) reach" unfolding solved_def using fr rl rr len' nr gc by simp
  moreover have "buildClosure g p = Some \<lparr>closure = closure_of (chunksOf g) reach,
        totalWeight = sum_weights g (closure_of (chunksOf g) reach),
        csize = length (closure_of (chunksOf g) reach), penalty = Some p\<rparr>"
    using assms mf re unfolding buildClosure_def chunksOf_def by (simp add: Let_def)
  ultimately show ?thesis by blast
qed

lemma buildClosure_total: "\<exists>sol. buildClosure g p = Some sol"
  using buildClosure_empty[of g p] buildClosure_nonempty[of g p] by (cases "chunksOf g = []") auto

lemma solved_slot_open:
  assumes s: "solved g p adj' reach" and slot: "has_slot (network g p) u w (INF_g g p)"
    and u: "u < length (chunksOf g) + 2"
  shows "redge adj' u w"
proof -
  let ?net = "network g p"
  have fr: "flow_rel 0 1 ?net adj'" using s unfolding solved_def by simp
  have inv: "net_inv (length (chunksOf g)) ?net" by (rule network_inv)
  then have len: "length ?net = length (chunksOf g) + 2" unfolding net_inv_def by simp
  have sh: "shape adj' = shape ?net" and nn: "caps_nonneg adj'"
    and dr: "\<And>u j. u < length ?net \<Longrightarrow> j < length (?net ! u) \<Longrightarrow>
        dcap (?net ! u ! j) - dcap (adj' ! u ! j) \<le> srccap 0 ?net - srccap 0 adj'"
    using fr unfolding flow_rel_def by simp_all
  obtain j where j: "j < length (?net ! u)" "dto (?net ! u ! j) = w" "dcap (?net ! u ! j) = INF_g g p"
    using slot unfolding has_slot_def by blast
  have un: "u < length ?net" using u len by simp
  have "0 \<le> srccap 0 adj'" unfolding srccap_def using nn by (rule cutcap_nonneg)
  then have "INF_g g p - dcap (adj' ! u ! j) \<le> INF_g g p - 1"
    using dr[OF un j(1)] j(3) network_srccap[of g p] by simp
  then have c: "eps < dcap (adj' ! u ! j)" by (simp add: eps_def)
  have j': "j < length (adj' ! u)" using shape_row_length[OF sh un] j(1) by simp
  have d: "dto (adj' ! u ! j) = w" using shape_edge(1)[OF sh un j(1)] j(2) by simp
  have "adj' ! u ! j \<in> set (adj' ! u)" using j' by simp
  moreover have "u < length adj'" using shape_length[OF sh] un by simp
  ultimately show ?thesis unfolding redge_def using c d by blast
qed

lemma distinct_findIndex:
  assumes "distinct (map f xs)" "i < length xs"
  shows "findIndex (\<lambda>x. f x = f (xs ! i)) xs = Some i"
proof (cases "findIndex (\<lambda>x. f x = f (xs ! i)) xs")
  case None
  then show ?thesis using assms(2) by (auto simp: findIndex_None)
next
  case (Some k)
  from findIndex_Some[OF Some] have "k < length xs" "f (xs ! k) = f (xs ! i)" by simp_all
  then have "map f xs ! k = map f xs ! i" using assms(2) by simp
  moreover have "k < length (map f xs)" "i < length (map f xs)" using assms(2) \<open>k < length xs\<close> by simp_all
  ultimately have "k = i" using assms(1) unfolding distinct_conv_nth by blast
  then show ?thesis using Some by simp
qed

lemma solved_closed:
  assumes s: "solved g p adj' reach" and d: "distinct (map chunk_id (chunksOf g))"
    and e: "e \<in> set (edges g)"
    and a: "e_from e \<in> set (closure_of (chunksOf g) reach)"
    and b: "e_to e \<in> chunk_id ` set (chunksOf g)"
  shows "e_to e \<in> set (closure_of (chunksOf g) reach)"
proof -
  let ?cs = "chunksOf g"
  obtain f where f: "f < length ?cs" "reach ! (f + 2)" "e_from e = chunk_id (?cs ! f)"
    using a unfolding closure_of_set by blast
  obtain t where t: "t < length ?cs" "e_to e = chunk_id (?cs ! t)"
    using b by (auto simp: in_set_conv_nth)
  have fi: "findIndex (\<lambda>x. chunk_id x = e_from e) ?cs = Some f"
    using distinct_findIndex[OF d f(1)] f(3) by simp
  have ti: "findIndex (\<lambda>x. chunk_id x = e_to e) ?cs = Some t"
    using distinct_findIndex[OF d t(1)] t(2) by simp
  have slot: "has_slot (network g p) (f + 2) (t + 2) (INF_g g p)"
    by (rule network_slot[OF e fi ti])
  have re: "redge adj' (f + 2) (t + 2)"
    by (rule solved_slot_open[OF s slot]) (use f(1) in simp)
  have rr: "\<And>v. v < length ?cs + 2 \<Longrightarrow> reach ! v \<longleftrightarrow> rreach adj' 0 v"
    using s unfolding solved_def by simp
  have "rreach adj' 0 (f + 2)" using rr[of "f + 2"] f(1,2) by simp
  then have "rreach adj' 0 (t + 2)" using re unfolding rreach_def by simp
  then have "reach ! (t + 2)" using rr[of "t + 2"] t(1) by simp
  then show ?thesis unfolding closure_of_set using t by blast
qed

section \<open>The Size Enforcer and the penalty search\<close>

lemma enforceSizeLimit_alt:
  "enforceSizeLimit g ids k =
     (if int (length ids) \<le> k then ids
      else if fallbackTaken g ids k
           then slice0 k (sort_key (\<lambda>a. - weight_in (enforce_weights g ids) a) (trimmed g ids k))
           else trimmed g ids k)"
  unfolding enforceSizeLimit_def fallbackTaken_def trimmed_def Let_def by simp

lemma fold_set_add: "set (fold set_add xs acc) = set acc \<union> set xs \<and> (distinct acc \<longrightarrow> distinct (fold set_add xs acc))"
  by (induction xs arbitrary: acc) (auto simp: set_add_def)

lemma set_new_Set: "set (new_Set xs) = set xs"
  unfolding new_Set_def using fold_set_add[of xs "[]"] by simp

lemma distinct_new_Set: "distinct (new_Set xs)"
  unfolding new_Set_def using fold_set_add[of xs "[]"] by simp

lemma isDep_deps_set: "isDep deps cid keep \<longleftrightarrow> deps_set deps cid \<inter> set keep \<noteq> {}"
  unfolding isDep_def deps_set_def by (auto simp: list_ex_iff split: option.splits)

lemma deps_set_add: "deps_set (add_dependent e m) cid =
    deps_set m cid \<union> (if e_to e = cid then {e_from e} else {})"
  unfolding deps_set_def add_dependent_def set_add_def by (auto split: option.splits)

lemma deps_set_fold: "deps_set (fold add_dependent es m) cid =
    deps_set m cid \<union> {e_from e | e. e \<in> set es \<and> e_to e = cid}"
proof (induction es arbitrary: m)
  case Nil
  then show ?case by simp
next
  case (Cons e es)
  show ?case by (simp add: Cons.IH deps_set_add) blast
qed

lemma deps_set_dependents: "deps_set (dependents g) cid = {e_from e | e. e \<in> set (edges g) \<and> e_to e = cid}"
  unfolding dependents_def deps_set_fold by (simp add: deps_set_def)

lemma trim_step:
  "trim deps k (cid # removable) keep =
     (if int (length keep) \<le> k then keep
      else trim deps k removable (if \<not> isDep deps cid keep then removeAll cid keep else keep))"
  by (simp add: isDep_def Let_def)

lemma trim_subset: "set (trim deps k removable keep) \<subseteq> set keep"
proof (induction removable arbitrary: keep)
  case Nil
  then show ?case by simp
next
  case (Cons cid removable)
  show ?case unfolding trim_step using Cons.IH[of keep] Cons.IH[of "removeAll cid keep"] by auto
qed

lemma trim_distinct: "distinct keep \<Longrightarrow> distinct (trim deps k removable keep)"
proof (induction removable arbitrary: keep)
  case Nil
  then show ?case by simp
next
  case (Cons cid removable)
  show ?case unfolding trim_step
    using Cons.IH[of keep] Cons.IH[of "removeAll cid keep"] Cons.prems by (simp add: distinct_removeAll)
qed

lemma trim_closed:
  "closed_under g (set keep) \<Longrightarrow> closed_under g (set (trim (dependents g) k removable keep))"
proof (induction removable arbitrary: keep)
  case Nil
  then show ?case by simp
next
  case (Cons cid removable)
  show ?case
  proof (cases "\<not> int (length keep) \<le> k \<and> \<not> isDep (dependents g) cid keep")
    case False
    then show ?thesis unfolding trim_step using Cons.IH[OF Cons.prems] Cons.prems by auto
  next
    case True
    then have nd: "{e_from e | e. e \<in> set (edges g) \<and> e_to e = cid} \<inter> set keep = {}"
      unfolding isDep_deps_set deps_set_dependents by simp
    have "closed_under g (set (removeAll cid keep))"
      unfolding closed_under_def
    proof (intro ballI impI)
      fix e assume e: "e \<in> set (edges g)" and f: "e_from e \<in> set (removeAll cid keep)"
        and t: "e_to e \<in> idsOf g"
      have fk: "e_from e \<in> set keep" using f by simp
      then have "e_to e \<in> set keep" using Cons.prems e t unfolding closed_under_def by blast
      moreover have "e_to e \<noteq> cid" using nd e fk by auto
      ultimately show "e_to e \<in> set (removeAll cid keep)" by simp
    qed
    from Cons.IH[OF this] show ?thesis unfolding trim_step using True by simp
  qed
qed

lemma slice0_subset: "set (slice0 k xs) \<subseteq> set xs"
  unfolding slice0_def by (auto dest: in_set_takeD)

lemma slice0_distinct: "distinct xs \<Longrightarrow> distinct (slice0 k xs)"
  unfolding slice0_def by simp

lemma slice0_length: "0 \<le> k \<Longrightarrow> int (length (slice0 k xs)) \<le> k"
  unfolding slice0_def by simp

lemma trimmed_subset: "set (trimmed g ids k) \<subseteq> set ids"
  unfolding trimmed_def using trim_subset set_new_Set by fastforce

lemma trimmed_distinct: "distinct (trimmed g ids k)"
  unfolding trimmed_def by (rule trim_distinct) (rule distinct_new_Set)

lemma enforceSizeLimit_subset: "set (enforceSizeLimit g ids k) \<subseteq> set ids"
proof -
  have "set (slice0 k (sort_key (\<lambda>a. - weight_in (enforce_weights g ids) a) (trimmed g ids k)))
        \<subseteq> set (trimmed g ids k)"
    using slice0_subset[of k "sort_key (\<lambda>a. - weight_in (enforce_weights g ids) a) (trimmed g ids k)"]
    by simp
  then show ?thesis unfolding enforceSizeLimit_alt using trimmed_subset[of g ids k] by auto
qed

lemma enforceSizeLimit_distinct: "distinct ids \<Longrightarrow> distinct (enforceSizeLimit g ids k)"
  unfolding enforceSizeLimit_alt using trimmed_distinct[of g ids k] by (simp add: slice0_distinct)

lemma enforceSizeLimit_length: "0 \<le> k \<Longrightarrow> int (length (enforceSizeLimit g ids k)) \<le> k"
  unfolding enforceSizeLimit_alt fallbackTaken_def by (simp add: slice0_length)

lemma enforceSizeLimit_closed:
  assumes "closed_under g (set ids)" "\<not> fallbackTaken g ids k"
  shows "closed_under g (set (enforceSizeLimit g ids k))"
proof -
  have "closed_under g (set (new_Set ids))" using assms(1) by (simp add: set_new_Set)
  then have "closed_under g (set (trimmed g ids k))" unfolding trimmed_def by (rule trim_closed)
  then show ?thesis unfolding enforceSizeLimit_alt using assms by simp
qed

lemma search_total:
  "\<exists>b. search n g k low high best = Some b \<and>
       (b = best \<or> (\<exists>p sol. b = Some sol \<and> buildClosure g p = Some sol))"
proof (induction n arbitrary: low high best)
  case 0
  then show ?case by simp
next
  case (Suc n)
  let ?p = "(low + high) / 2"
  obtain cand where c: "buildClosure g ?p = Some cand" using buildClosure_total by blast
  let ?best' = "if improves k cand best then Some cand else best"
  have r: "search (Suc n) g k low high best =
     (if int (csize cand) > k then search n g k ?p high ?best' else search n g k low ?p ?best')"
    using c by (simp add: Let_def)
  have b': "?best' = best \<or> (\<exists>p sol. ?best' = Some sol \<and> buildClosure g p = Some sol)"
    using c by auto
  show ?case
  proof (cases "int (csize cand) > k")
    case True
    from Suc.IH[of ?p high ?best'] obtain b where
      "search n g k ?p high ?best' = Some b"
      "b = ?best' \<or> (\<exists>p sol. b = Some sol \<and> buildClosure g p = Some sol)" by blast
    then show ?thesis using r True b' by auto
  next
    case False
    from Suc.IH[of low ?p ?best'] obtain b where
      "search n g k low ?p ?best' = Some b"
      "b = ?best' \<or> (\<exists>p sol. b = Some sol \<and> buildClosure g p = Some sol)" by blast
    then show ?thesis using r False b' by auto
  qed
qed

lemma penaltySearch_total:
  "\<exists>final p. penaltySearch g k = Some final \<and> buildClosure g p = Some final"
proof -
  define weights where "weights = map weight0 (map snd (chunks g))"
  define low where "low = fold min weights (hd weights) - \<bar>fold min weights (hd weights)\<bar> - 5"
  define high where "high = fold max weights (hd weights) + \<bar>fold max weights (hd weights)\<bar> + 5"
  have ps: "penaltySearch g k =
      Option.bind (search 36 g k low high None)
        (\<lambda>best. case best of None \<Rightarrow> maximumWeightClosure g | Some b \<Rightarrow> Some b)"
    unfolding penaltySearch_def weights_def low_def high_def Let_def by simp
  from search_total[of 36 g k low high None] obtain b where
    b: "search 36 g k low high None = Some b"
    "b = None \<or> (\<exists>p sol. b = Some sol \<and> buildClosure g p = Some sol)" by blast
  from b(2) show ?thesis
  proof
    assume "b = None"
    then have "penaltySearch g k = buildClosure g 0"
      unfolding ps b(1) maximumWeightClosure_def by simp
    then show ?thesis using buildClosure_total[of g 0] by auto
  next
    assume "\<exists>p sol. b = Some sol \<and> buildClosure g p = Some sol"
    then obtain p sol where "b = Some sol" "buildClosure g p = Some sol" by blast
    then show ?thesis unfolding ps b(1) by auto
  qed
qed

section \<open>The entry points\<close>

lemma wf_graph_ids:
  assumes "wf_graph g"
  shows "map chunk_id (chunksOf g) = map fst (chunks g)"
    and "distinct (map chunk_id (chunksOf g))"
    and "chunk_id ` set (chunksOf g) = keysOf g"
proof -
  have d: "distinct (map fst (chunks g))" and k: "\<forall>kc \<in> set (chunks g). chunk_id (snd kc) = fst kc"
    using assms unfolding wf_graph_def by (auto simp: list_all_iff)
  show 1: "map chunk_id (chunksOf g) = map fst (chunks g)"
    unfolding chunksOf_def using k by simp
  show "distinct (map chunk_id (chunksOf g))" using 1 d by simp
  have "set (map chunk_id (chunksOf g)) = set (map fst (chunks g))" using 1 by simp
  then show "chunk_id ` set (chunksOf g) = keysOf g" unfolding keysOf_def by simp
qed

lemma idsOf_chunksOf: "idsOf g = chunk_id ` set (chunksOf g)"
  unfolding idsOf_def chunksOf_def ..

lemma wf_graph_distinct_ids: "wf_graph g \<Longrightarrow> distinct_ids g"
  using wf_graph_ids(2)[of g] unfolding distinct_ids_def chunksOf_def .

lemma wf_graph_idsOf: "wf_graph g \<Longrightarrow> idsOf g = keysOf g"
  using wf_graph_ids(3)[of g] unfolding idsOf_chunksOf .

lemma subseq_subset: "subseq xs ys \<Longrightarrow> set xs \<subseteq> set ys"
  by (auto elim: list_emb_set)

lemma subseq_distinct_left: "subseq xs ys \<Longrightarrow> distinct ys \<Longrightarrow> distinct xs"
  using subseqs_distinctD[of xs ys] by simp

lemma buildClosure_ids:
  assumes "buildClosure g p = Some sol"
  shows "subseq (closure sol) (map chunk_id (chunksOf g))"
    and "csize sol = length (closure sol)"
    and "penalty sol = Some p"
    and "totalWeight sol = sum_weights g (closure sol)"
proof -
  have "subseq (closure sol) (map chunk_id (chunksOf g)) \<and> csize sol = length (closure sol) \<and>
        penalty sol = Some p \<and> totalWeight sol = sum_weights g (closure sol)"
  proof (cases "chunksOf g = []")
    case True
    then show ?thesis using assms buildClosure_empty[OF True, of p] by (auto simp: sum_weights_def)
  next
    case False
    from buildClosure_nonempty[OF False, of p] obtain adj' reach where
      "buildClosure g p = Some \<lparr>closure = closure_of (chunksOf g) reach,
        totalWeight = sum_weights g (closure_of (chunksOf g) reach),
        csize = length (closure_of (chunksOf g) reach), penalty = Some p\<rparr>" by blast
    then show ?thesis using assms closure_of_subseq[of "chunksOf g" reach] by auto
  qed
  then show "subseq (closure sol) (map chunk_id (chunksOf g))"
    and "csize sol = length (closure sol)"
    and "penalty sol = Some p"
    and "totalWeight sol = sum_weights g (closure sol)" by simp_all
qed

lemma buildClosure_closed:
  assumes di: "distinct_ids g" and b: "buildClosure g p = Some sol"
  shows "closed_under g (set (closure sol))"
proof (cases "chunksOf g = []")
  case True
  then show ?thesis using b buildClosure_empty[OF True, of p] unfolding closed_under_def by auto
next
  case False
  from buildClosure_nonempty[OF False, of p] b obtain adj' reach where
    s: "solved g p adj' reach" and c: "closure sol = closure_of (chunksOf g) reach" by auto
  show ?thesis unfolding closed_under_def c
  proof (intro ballI impI)
    fix e assume "e \<in> set (edges g)" "e_from e \<in> set (closure_of (chunksOf g) reach)"
      "e_to e \<in> idsOf g"
    then show "e_to e \<in> set (closure_of (chunksOf g) reach)"
      using solved_closed[OF s] di unfolding distinct_ids_def idsOf_chunksOf chunksOf_def by simp
  qed
qed

lemma buildClosure_idsOf:
  assumes b: "buildClosure g p = Some sol"
  shows "set (closure sol) \<subseteq> idsOf g"
  using subseq_subset[OF buildClosure_ids(1)[OF b]] unfolding idsOf_chunksOf by simp

lemma buildClosure_keys:
  assumes wf: "wf_graph g" and b: "buildClosure g p = Some sol"
  shows "set (closure sol) \<subseteq> keysOf g" and "distinct (closure sol)"
proof -
  have s: "subseq (closure sol) (map chunk_id (chunksOf g))" using buildClosure_ids(1)[OF b] .
  then have "set (closure sol) \<subseteq> set (map chunk_id (chunksOf g))" by (rule subseq_subset)
  then show "set (closure sol) \<subseteq> keysOf g" using wf_graph_ids(3)[OF wf] by simp
  show "distinct (closure sol)" using subseq_distinct_left[OF s wf_graph_ids(2)[OF wf]] .
qed

lemma solve_empty:
  assumes "k \<le> 0 \<or> chunks g = []"
  shows "solveClosureBySize g k = Some \<lparr>closure = [], totalWeight = 0, csize = 0, penalty = None\<rparr>"
  using assms unfolding solveClosureBySize_def by (auto simp: Let_def)

lemma solve_all:
  assumes "0 < k" "chunks g \<noteq> []" "int (length (chunks g)) \<le> k"
  shows "solveClosureBySize g k = maximumWeightClosure g"
  using assms unfolding solveClosureBySize_def by (simp add: Let_def)

lemma solve_search:
  assumes "0 < k" "chunks g \<noteq> []" "\<not> int (length (chunks g)) \<le> k" "penaltySearch g k = Some final"
  shows "solveClosureBySize g k =
     Some (final\<lparr>closure := enforceSizeLimit g (closure final) k,
                 totalWeight := sum_weights g (enforceSizeLimit g (closure final) k),
                 csize := length (enforceSizeLimit g (closure final) k)\<rparr>)"
  using assms unfolding solveClosureBySize_def by (simp add: Let_def)

lemma solve_total: "\<exists>sol. solveClosureBySize g k = Some sol"
proof -
  consider "k \<le> 0 \<or> chunks g = []" | "0 < k" "chunks g \<noteq> []" "int (length (chunks g)) \<le> k"
    | "0 < k" "chunks g \<noteq> []" "\<not> int (length (chunks g)) \<le> k" by linarith
  then show ?thesis
  proof cases
    case 1 then show ?thesis using solve_empty by blast
  next
    case 2 then show ?thesis using solve_all buildClosure_total[of g 0] unfolding maximumWeightClosure_def by simp
  next
    case 3
    obtain final where "penaltySearch g k = Some final" using penaltySearch_total by blast
    from solve_search[OF 3 this] show ?thesis by blast
  qed
qed


lemma solve_properties:
  assumes wf: "wf_graph g" and s: "solveClosureBySize g k = Some sol"
  shows "set (closure sol) \<subseteq> keysOf g" and "distinct (closure sol)"
    and "\<not> fallbackPath g k \<Longrightarrow> closed_under g (set (closure sol))"
proof -
  note di = wf_graph_distinct_ids[OF wf]
  consider "k \<le> 0 \<or> chunks g = []" | "0 < k" "chunks g \<noteq> []" "int (length (chunks g)) \<le> k"
    | "0 < k" "chunks g \<noteq> []" "\<not> int (length (chunks g)) \<le> k" by linarith
  then have "set (closure sol) \<subseteq> keysOf g \<and> distinct (closure sol) \<and>
      (\<not> fallbackPath g k \<longrightarrow> closed_under g (set (closure sol)))"
  proof cases
    case 1
    then show ?thesis using s solve_empty[OF 1] unfolding closed_under_def by auto
  next
    case 2
    then have "buildClosure g 0 = Some sol" using s solve_all unfolding maximumWeightClosure_def by simp
    then show ?thesis using buildClosure_keys[OF wf] buildClosure_closed[OF di] by blast
  next
    case 3
    obtain final p where f: "penaltySearch g k = Some final" and b: "buildClosure g p = Some final"
      using penaltySearch_total by blast
    have c: "closure sol = enforceSizeLimit g (closure final) k"
      using solve_search[OF 3 f] s by auto
    have sub: "set (closure sol) \<subseteq> keysOf g"
      unfolding c using enforceSizeLimit_subset[of g "closure final" k] buildClosure_keys(1)[OF wf b] by blast
    have dis: "distinct (closure sol)"
      unfolding c by (rule enforceSizeLimit_distinct[OF buildClosure_keys(2)[OF wf b]])
    have "closed_under g (set (closure sol))" if "\<not> fallbackPath g k"
    proof -
      have "\<not> fallbackTaken g (closure final) k"
        using that 3 f unfolding fallbackPath_def by simp
      then show ?thesis unfolding c
        using enforceSizeLimit_closed[OF buildClosure_closed[OF di b]] by simp
    qed
    then show ?thesis using sub dis by blast
  qed
  then show "set (closure sol) \<subseteq> keysOf g" and "distinct (closure sol)"
    and "\<not> fallbackPath g k \<Longrightarrow> closed_under g (set (closure sol))" by simp_all
qed

lemma solve_size:
  assumes "0 < k" and s: "solveClosureBySize g k = Some sol"
  shows "int (csize sol) \<le> k"
proof -
  consider "chunks g = []" | "chunks g \<noteq> []" "int (length (chunks g)) \<le> k"
    | "chunks g \<noteq> []" "\<not> int (length (chunks g)) \<le> k" by blast
  then show ?thesis
  proof cases
    case 1
    then show ?thesis using s solve_empty[of k g] assms(1) by auto
  next
    case 2
    then have b: "buildClosure g 0 = Some sol"
      using s solve_all[OF assms(1)] unfolding maximumWeightClosure_def by simp
    have "length (closure sol) \<le> length (map chunk_id (chunksOf g))"
      using buildClosure_ids(1)[OF b] by (rule list_emb_length)
    then show ?thesis using buildClosure_ids(2)[OF b] 2 unfolding chunksOf_def by simp
  next
    case 3
    obtain final where f: "penaltySearch g k = Some final" using penaltySearch_total by blast
    have "csize sol = length (enforceSizeLimit g (closure final) k)"
      using solve_search[OF assms(1) 3 f] s by auto
    then show ?thesis using enforceSizeLimit_length[of k g "closure final"] assms(1) by simp
  qed
qed

section \<open>Dropping an edge that the network does not use\<close>

lemma add_dep_dangling:
  assumes "e_from e \<notin> chunk_id ` set cs \<or> e_to e \<notin> chunk_id ` set cs"
  shows "add_dep cs c e adj = adj"
proof -
  have "findIndex (\<lambda>x. chunk_id x = e_from e) cs = None \<or> findIndex (\<lambda>x. chunk_id x = e_to e) cs = None"
    using assms unfolding findIndex_None by (metis imageI)
  then show ?thesis unfolding add_dep_def by (auto split: option.splits)
qed

lemma buildClosure_cong:
  assumes "chunks g' = chunks g" "network g' p = network g p"
  shows "buildClosure g' p = buildClosure g p"
  using assms unfolding buildClosure_def sum_weights_def weightOf_def by simp

lemma buildClosure_drop_edge:
  assumes ed: "edges g = xs @ e # ys"
    and dg: "e_from e \<notin> idsOf g \<or> e_to e \<notin> idsOf g"
  shows "buildClosure (g\<lparr>edges := xs @ ys\<rparr>) p = buildClosure g p"
proof -
  let ?g' = "g\<lparr>edges := xs @ ys\<rparr>"
  have cs: "chunksOf ?g' = chunksOf g" and inf: "INF_g ?g' p = INF_g g p"
    unfolding chunksOf_def INF_g_def by simp_all
  have "add_dep (chunksOf g) (INF_g g p) e adj = adj" for adj
    by (rule add_dep_dangling) (use dg in \<open>simp add: idsOf_chunksOf\<close>)
  then have "network ?g' p = network g p"
    unfolding network_alt cs inf ed by simp
  then show ?thesis by (intro buildClosure_cong) simp_all
qed

lemma search_cong:
  assumes "\<And>p. buildClosure g' p = buildClosure g p"
  shows "search n g' k low high best = search n g k low high best"
proof (induction n arbitrary: low high best)
  case 0
  then show ?case by simp
next
  case (Suc n)
  show ?case by (simp add: assms Let_def Suc.IH cong: if_cong)
qed

lemma penaltySearch_cong:
  assumes "\<And>p. buildClosure g' p = buildClosure g p" "chunks g' = chunks g"
  shows "penaltySearch g' k = penaltySearch g k"
  unfolding penaltySearch_def maximumWeightClosure_def using search_cong[of g' g, OF assms(1)] assms
  by simp

lemma trim_cong:
  assumes "\<And>cid keep'. cid \<in> set rem \<Longrightarrow> set keep' \<subseteq> set keep \<Longrightarrow> isDep d1 cid keep' = isDep d2 cid keep'"
  shows "trim d1 k rem keep = trim d2 k rem keep"
  using assms
proof (induction rem arbitrary: keep)
  case Nil
  then show ?case by simp
next
  case (Cons cid rem)
  have a: "isDep d1 cid keep = isDep d2 cid keep" using Cons.prems[of cid keep] by simp
  have 1: "trim d1 k rem keep = trim d2 k rem keep"
    by (rule Cons.IH) (use Cons.prems in auto)
  have 2: "trim d1 k rem (removeAll cid keep) = trim d2 k rem (removeAll cid keep)"
    by (rule Cons.IH) (use Cons.prems in auto)
  show ?case unfolding trim_step using a 1 2 by simp
qed

lemma enforceSizeLimit_drop_edge:
  assumes ed: "edges g = xs @ e # ys"
    and dg: "e_from e \<notin> idsOf g \<or> e_to e \<notin> idsOf g"
    and ids: "set ids \<subseteq> idsOf g"
  shows "enforceSizeLimit (g\<lparr>edges := xs @ ys\<rparr>) ids k = enforceSizeLimit g ids k"
proof -
  let ?g' = "g\<lparr>edges := xs @ ys\<rparr>"
  have w: "enforce_weights ?g' ids = enforce_weights g ids"
    unfolding enforce_weights_def weightOf_def by simp
  have dep: "isDep (dependents ?g') cid keep' = isDep (dependents g) cid keep'"
    if "cid \<in> idsOf g" "set keep' \<subseteq> idsOf g" for cid keep'
  proof -
    have "deps_set (dependents g) cid =
          deps_set (dependents ?g') cid \<union> (if e_to e = cid then {e_from e} else {})"
      unfolding deps_set_dependents ed by auto
    moreover have "(if e_to e = cid then {e_from e} else {}) \<inter> set keep' = {}"
      using dg that by auto
    ultimately show ?thesis unfolding isDep_deps_set by blast
  qed
  have "trim (dependents ?g') k rem keep = trim (dependents g) k rem keep"
    if "set rem \<subseteq> idsOf g" "set keep \<subseteq> idsOf g" for rem keep
    by (rule trim_cong) (use that dep in blast)
  then have "trimmed ?g' ids k = trimmed g ids k"
    unfolding trimmed_def w using ids by (simp add: set_new_Set)
  then show ?thesis unfolding enforceSizeLimit_alt fallbackTaken_def w by simp
qed

lemma solve_drop_edge:
  assumes ed: "edges g = xs @ e # ys"
    and dg: "e_from e \<notin> idsOf g \<or> e_to e \<notin> idsOf g"
  shows "solveClosureBySize (g\<lparr>edges := xs @ ys\<rparr>) k = solveClosureBySize g k"
proof -
  let ?g' = "g\<lparr>edges := xs @ ys\<rparr>"
  have bc: "\<And>p. buildClosure ?g' p = buildClosure g p"
    by (rule buildClosure_drop_edge[OF ed dg])
  have ch: "chunks ?g' = chunks g" by simp
  have mw: "maximumWeightClosure ?g' = maximumWeightClosure g"
    unfolding maximumWeightClosure_def by (rule bc)
  have ps: "penaltySearch ?g' k = penaltySearch g k"
    by (rule penaltySearch_cong[OF bc ch])
  consider "k \<le> 0 \<or> chunks g = []" | "0 < k" "chunks g \<noteq> []" "int (length (chunks g)) \<le> k"
    | "0 < k" "chunks g \<noteq> []" "\<not> int (length (chunks g)) \<le> k" by linarith
  then show ?thesis
  proof cases
    case 1
    then show ?thesis using solve_empty[of k g] solve_empty[of k ?g'] by simp
  next
    case 2
    then show ?thesis using solve_all[of k g] solve_all[of k ?g'] mw by simp
  next
    case 3
    obtain final p where f: "penaltySearch g k = Some final" and b: "buildClosure g p = Some final"
      using penaltySearch_total by blast
    have en: "enforceSizeLimit ?g' (closure final) k = enforceSizeLimit g (closure final) k"
      by (rule enforceSizeLimit_drop_edge[OF ed dg buildClosure_idsOf[OF b]])
    have sw: "sum_weights ?g' = sum_weights g"
      unfolding sum_weights_def weightOf_def by simp
    have f': "penaltySearch ?g' k = Some final" using ps f by simp
    have c3: "0 < k" "chunks ?g' \<noteq> []" "\<not> int (length (chunks ?g')) \<le> k" using 3 by simp_all
    show ?thesis unfolding solve_search[OF 3 f] solve_search[OF c3 f'] en sw by simp
  qed
qed

section \<open>Graphs without edges\<close>

lemma redge_addEdge:
  assumes u: "u < length adj" and v: "v < length adj"
  shows "redge (addEdge u v c adj) x y \<longleftrightarrow> redge adj x y \<or> (x = u \<and> y = v \<and> eps < c)"
proof -
  let ?fwd = "\<lparr>dto = v, drev = length (adj ! v), dcap = c\<rparr>"
  let ?rv = "\<lparr>dto = u, drev = length (adj ! u), dcap = 0\<rparr>"
  have s: "set (addEdge u v c adj ! x) =
      set (adj ! x) \<union> (if x = u then {?fwd} else {}) \<union> (if x = v then {?rv} else {})"
    unfolding addEdge_nth[OF u v] by auto
  have "\<not> eps < dcap ?rv" using eps_pos by simp
  then show ?thesis
    unfolding redge_def length_addEdge s using u by (auto split: if_splits)
qed

lemma redge_add_chunk:
  assumes "fst ic < n" "net_inv n adj"
  shows "redge (add_chunk p ic adj) x y \<longleftrightarrow> redge adj x y \<or> chunk_live p ic x y"
proof -
  have len: "length adj = n + 2" using assms(2) unfolding net_inv_def by simp
  have node: "fst ic + 2 < length adj" "0 < length adj" "1 < length adj" using assms(1) len by simp_all
  show ?thesis
  proof (cases "weight0 (snd ic) - p \<ge> 0")
    case True
    then have eq: "add_chunk p ic adj = addEdge 0 (fst ic + 2) (weight0 (snd ic) - p) adj"
      unfolding add_chunk_def Let_def by simp
    have "\<not> eps < p - weight0 (snd ic)" using True eps_pos by simp
    then show ?thesis unfolding eq redge_addEdge[OF node(2) node(1)] chunk_live_def by auto
  next
    case False
    then have eq: "add_chunk p ic adj = addEdge (fst ic + 2) 1 (- (weight0 (snd ic) - p)) adj"
      unfolding add_chunk_def Let_def by simp
    have "\<not> eps < weight0 (snd ic) - p" using False eps_pos by simp
    then show ?thesis unfolding eq redge_addEdge[OF node(1) node(3)] chunk_live_def by auto
  qed
qed

lemma redge_fold_add_chunk:
  "k + length cs \<le> n \<Longrightarrow> net_inv n adj \<Longrightarrow>
   redge (fold (add_chunk p) (enumerate k cs) adj) x y \<longleftrightarrow>
     redge adj x y \<or> (\<exists>ic \<in> set (enumerate k cs). chunk_live p ic x y)"
proof (induction cs arbitrary: k adj)
  case Nil
  then show ?case by simp
next
  case (Cons c cs)
  have f: "fst (k, c) < n" using Cons.prems(1) by simp
  have a: "net_inv n (add_chunk p (k, c) adj)"
    using add_chunk_inv[OF f Cons.prems(2)] by blast
  have "Suc k + length cs \<le> n" using Cons.prems(1) by simp
  from Cons.IH[OF this a] show ?case
    unfolding redge_add_chunk[OF f Cons.prems(2)] by auto
qed

lemma redge_replicate: "\<not> redge (replicate m []) x y"
  unfolding redge_def by simp

lemma network_no_edges:
  assumes "edges g = []"
  shows "redge (network g p) x y \<longleftrightarrow>
     (\<exists>i < length (chunksOf g).
        (x = 0 \<and> y = i + 2 \<and> eps < weight0 (chunksOf g ! i) - p) \<or>
        (x = i + 2 \<and> y = 1 \<and> eps < p - weight0 (chunksOf g ! i)))"
proof -
  have n: "network g p = fold (add_chunk p) (enumerate 0 (chunksOf g)) (replicate (length (chunksOf g) + 2) [])"
    unfolding network_alt assms by simp
  have "redge (fold (add_chunk p) (enumerate 0 (chunksOf g)) (replicate (length (chunksOf g) + 2) [])) x y \<longleftrightarrow>
     redge (replicate (length (chunksOf g) + 2) []) x y \<or>
     (\<exists>ic \<in> set (enumerate 0 (chunksOf g)). chunk_live p ic x y)"
    by (rule redge_fold_add_chunk[OF _ net_inv_start]) simp
  then have "redge (network g p) x y \<longleftrightarrow> (\<exists>ic \<in> set (enumerate 0 (chunksOf g)). chunk_live p ic x y)"
    unfolding n using redge_replicate[of "length (chunksOf g) + 2" x y] by blast
  also have "\<dots> \<longleftrightarrow> (\<exists>i < length (chunksOf g). chunk_live p (i, chunksOf g ! i) x y)"
    by (auto simp: in_set_enumerate_eq)
  finally show ?thesis unfolding chunk_live_def by simp
qed

lemma rreach_no_edges:
  assumes "edges g = []"
  shows "rreach (network g p) 0 v \<longleftrightarrow>
     v = 0 \<or> (\<exists>i < length (chunksOf g). v = i + 2 \<and> eps < weight0 (chunksOf g ! i) - p)"
proof
  assume "rreach (network g p) 0 v"
  then have "(redge (network g p))\<^sup>*\<^sup>* 0 v" unfolding rreach_def .
  then show "v = 0 \<or> (\<exists>i < length (chunksOf g). v = i + 2 \<and> eps < weight0 (chunksOf g ! i) - p)"
  proof (induction rule: rtranclp_induct)
    case base
    then show ?case by simp
  next
    case (step y z)
    from step.hyps(2) obtain i where i: "i < length (chunksOf g)"
      "(y = 0 \<and> z = i + 2 \<and> eps < weight0 (chunksOf g ! i) - p) \<or>
       (y = i + 2 \<and> z = 1 \<and> eps < p - weight0 (chunksOf g ! i))"
      unfolding network_no_edges[OF assms] by blast
    from i(2) show ?case
    proof
      assume "y = 0 \<and> z = i + 2 \<and> eps < weight0 (chunksOf g ! i) - p"
      then show ?thesis using i(1) by blast
    next
      assume a: "y = i + 2 \<and> z = 1 \<and> eps < p - weight0 (chunksOf g ! i)"
      then have "eps < weight0 (chunksOf g ! i) - p" using step.IH by auto
      then show ?thesis using a eps_pos by simp
    qed
  qed
next
  assume "v = 0 \<or> (\<exists>i < length (chunksOf g). v = i + 2 \<and> eps < weight0 (chunksOf g ! i) - p)"
  then show "rreach (network g p) 0 v"
  proof
    assume "v = 0" then show ?thesis unfolding rreach_def by simp
  next
    assume "\<exists>i < length (chunksOf g). v = i + 2 \<and> eps < weight0 (chunksOf g ! i) - p"
    then have "redge (network g p) 0 v" unfolding network_no_edges[OF assms] by blast
    then show ?thesis unfolding rreach_def by simp
  qed
qed

lemma parents_rreach:
  assumes par: "parents adj src level"
  shows "x < length adj \<Longrightarrow> 0 \<le> level ! x \<Longrightarrow> rreach adj src x"
proof (induction "nat (level ! x)" arbitrary: x rule: less_induct)
  case less
  show ?case
  proof (cases "x = src")
    case True
    then show ?thesis unfolding rreach_def by simp
  next
    case False
    then obtain y where y: "y < length adj" "0 \<le> level ! y" "level ! x = level ! y + 1" "redge adj y x"
      using par less.prems unfolding parents_def by blast
    have "nat (level ! y) < nat (level ! x)" using y(2,3) by simp
    from less.hyps[OF this y(1,2)] show ?thesis using y(4) unfolding rreach_def by simp
  qed
qed

lemma maxFlow_unreachable:
  assumes wf: "wf_adj adj" and src: "src < length adj" and sink: "sink < length adj"
    and nr: "\<not> rreach adj src sink"
  shows "maxFlow adj src sink = Some (adj, 0)"
proof -
  from bfs_correct[OF wf src] obtain level where
    b: "bfs adj src = Some level" and par: "parents adj src level" by blast
  have "\<not> 0 \<le> level ! sink" using parents_rreach[OF par sink] nr by blast
  then show ?thesis unfolding maxFlow_def using b by (subst maxFlow_loop.simps) simp
qed

lemma buildClosure_no_edges:
  assumes "edges g = []"
  shows "buildClosure g p =
     Some \<lparr>closure = map chunk_id (filter (\<lambda>c. eps < weight0 c - p) (chunksOf g)),
           totalWeight = sum_weights g (map chunk_id (filter (\<lambda>c. eps < weight0 c - p) (chunksOf g))),
           csize = length (map chunk_id (filter (\<lambda>c. eps < weight0 c - p) (chunksOf g))),
           penalty = Some p\<rparr>"
proof (cases "chunksOf g = []")
  case True
  then show ?thesis using buildClosure_empty[OF True, of p] by (simp add: sum_weights_def)
next
  case False
  let ?net = "network g p"
  let ?cs = "chunksOf g"
  have inv: "net_inv (length ?cs) ?net" by (rule network_inv)
  then have len: "length ?net = length ?cs + 2" and wf: "wf_adj ?net"
    unfolding net_inv_def by simp_all
  have s0: "0 < length ?net" and s1: "1 < length ?net" using len by simp_all
  have "\<not> rreach ?net 0 1" unfolding rreach_no_edges[OF assms] by simp
  from maxFlow_unreachable[OF wf s0 s1 this] have mf: "maxFlow ?net 0 1 = Some (?net, 0)" .
  from reachable_correct[OF wf s0] obtain reach where
    re: "reachable ?net 0 = Some reach"
    and rr: "\<forall>v < length ?net. reach ! v \<longleftrightarrow> rreach ?net 0 v" by blast
  have "filter (\<lambda>ic. reach ! (fst ic + 2)) (enumerate 0 ?cs) =
        filter (\<lambda>ic. eps < weight0 (snd ic) - p) (enumerate 0 ?cs)"
  proof (rule filter_cong[OF refl])
    fix ic assume "ic \<in> set (enumerate 0 ?cs)"
    then have i: "fst ic < length ?cs" "?cs ! fst ic = snd ic" by (simp_all add: in_set_enumerate_eq)
    then have "reach ! (fst ic + 2) \<longleftrightarrow> rreach ?net 0 (fst ic + 2)" using rr len by simp
    also have "\<dots> \<longleftrightarrow> eps < weight0 (?cs ! fst ic) - p"
      unfolding rreach_no_edges[OF assms] using i(1) by auto
    finally show "reach ! (fst ic + 2) \<longleftrightarrow> eps < weight0 (snd ic) - p" using i(2) by simp
  qed
  then have "closure_of ?cs reach =
      map chunk_id (map snd (filter ((\<lambda>c. eps < weight0 c - p) \<circ> snd) (enumerate 0 ?cs)))"
    unfolding closure_of_def by (simp add: comp_def)
  also have "\<dots> = map chunk_id (filter (\<lambda>c. eps < weight0 c - p) (map snd (enumerate 0 ?cs)))"
    by (simp only: filter_map)
  finally have cl: "closure_of ?cs reach = map chunk_id (filter (\<lambda>c. eps < weight0 c - p) ?cs)"
    by (simp add: map_snd_enumerate)
  have "buildClosure g p = Some \<lparr>closure = closure_of ?cs reach,
        totalWeight = sum_weights g (closure_of ?cs reach),
        csize = length (closure_of ?cs reach), penalty = Some p\<rparr>"
    using False mf re unfolding buildClosure_def chunksOf_def by (simp add: Let_def)
  then show ?thesis unfolding cl .
qed

section \<open>The weight of the closure\<close>

lemma slots_shape:
  assumes "shape adj' = shape adj"
  shows "slots adj' = slots adj"
proof -
  have "map length (shape a) = map length a" for a :: adjacency
    unfolding shape_def by simp
  then have "map length adj' = map length adj" using assms by metis
  then show ?thesis unfolding slots_def by simp
qed

lemma slots_append_row:
  "u < length adj \<Longrightarrow> slots (adj[u := adj ! u @ ys]) = slots adj + length ys"
  unfolding slots_def
  by (induction adj arbitrary: u) (auto split: nat.splits)

lemma slots_addEdge:
  assumes "u < length adj" "v < length adj"
  shows "slots (addEdge u v c adj) = slots adj + 2"
proof -
  let ?fwd = "\<lparr>dto = v, drev = length (adj ! v), dcap = c\<rparr>"
  let ?rv = "\<lparr>dto = u, drev = length (adj ! u), dcap = 0\<rparr>"
  let ?adj1 = "adj[u := adj ! u @ [?fwd]]"
  have 1: "slots ?adj1 = slots adj + 1" using slots_append_row[OF assms(1), of "[?fwd]"] by simp
  have "v < length ?adj1" using assms(2) by simp
  from slots_append_row[OF this, of "[?rv]"] have "slots (?adj1[v := ?adj1 ! v @ [?rv]]) = slots ?adj1 + 1"
    by simp
  then show ?thesis unfolding addEdge_def Let_def using 1 by simp
qed

lemma slots_add_chunk:
  assumes "fst ic < n" "net_inv n adj"
  shows "slots (add_chunk p ic adj) = slots adj + 2"
proof -
  have len: "length adj = n + 2" using assms(2) unfolding net_inv_def by simp
  have node: "fst ic + 2 < length adj" "0 < length adj" "1 < length adj" using assms(1) len by simp_all
  show ?thesis unfolding add_chunk_def Let_def
    using slots_addEdge[OF node(2) node(1)] slots_addEdge[OF node(1) node(3)] by simp
qed

lemma slots_fold_add_chunk:
  "k + length cs \<le> n \<Longrightarrow> net_inv n adj \<Longrightarrow>
   slots (fold (add_chunk p) (enumerate k cs) adj) = slots adj + 2 * length cs"
proof (induction cs arbitrary: k adj)
  case Nil
  then show ?case by simp
next
  case (Cons c cs)
  have f: "fst (k, c) < n" using Cons.prems(1) by simp
  have a: "net_inv n (add_chunk p (k, c) adj)"
    using add_chunk_inv[OF f Cons.prems(2)] by blast
  have "Suc k + length cs \<le> n" using Cons.prems(1) by simp
  from Cons.IH[OF this a] show ?case using slots_add_chunk[OF f Cons.prems(2), of p] by simp
qed

lemma slots_add_dep:
  assumes "net_inv (length cs) adj"
  shows "slots (add_dep cs c e adj) \<le> slots adj + 2"
proof -
  have len: "length adj = length cs + 2" using assms unfolding net_inv_def by simp
  show ?thesis
  proof (cases "findIndex (\<lambda>x. chunk_id x = e_from e) cs")
    case None
    then show ?thesis unfolding add_dep_def by simp
  next
    case (Some f)
    note f = this
    show ?thesis
    proof (cases "findIndex (\<lambda>x. chunk_id x = e_to e) cs")
      case None
      then show ?thesis unfolding add_dep_def using f by simp
    next
      case (Some t)
      have fn: "f + 2 < length adj" using findIndex_Some[OF f] len by simp
      have tn: "t + 2 < length adj" using findIndex_Some[OF Some] len by simp
      show ?thesis unfolding add_dep_def using f Some slots_addEdge[OF fn tn] by simp
    qed
  qed
qed

lemma slots_fold_add_dep:
  "net_inv (length cs) adj \<Longrightarrow> 0 \<le> c \<Longrightarrow>
   slots (fold (add_dep cs c) es adj) \<le> slots adj + 2 * length es"
proof (induction es arbitrary: adj)
  case Nil
  then show ?case by simp
next
  case (Cons e es)
  have a: "net_inv (length cs) (add_dep cs c e adj)"
    using add_dep_inv[OF Cons.prems] by blast
  from Cons.IH[OF a Cons.prems(2)] show ?case using slots_add_dep[OF Cons.prems(1), of c e] by simp
qed

lemma slots_network: "slots (network g p) \<le> 2 * (length (chunksOf g) + length (edges g))"
proof -
  let ?a = "fold (add_chunk p) (enumerate 0 (chunksOf g)) (replicate (length (chunksOf g) + 2) [])"
  have 1: "net_inv (length (chunksOf g)) ?a"
    using fold_add_chunk_inv[OF _ net_inv_start, of 0 "chunksOf g" "length (chunksOf g)"] by simp
  have z: "slots (replicate m []) = 0" for m unfolding slots_def by (induction m) simp_all
  have "slots ?a = slots (replicate (length (chunksOf g) + 2) []) + 2 * length (chunksOf g)"
    by (rule slots_fold_add_chunk[OF _ net_inv_start]) simp
  then have 2: "slots ?a = 2 * length (chunksOf g)" unfolding z by simp
  have 3: "0 \<le> INF_g g p" using INF_of_ge1[of "map weight0 (chunksOf g)" p] unfolding INF_g_def by simp
  show ?thesis unfolding network_alt using slots_fold_add_dep[OF 1 3, of "edges g"] 2 by simp
qed

lemma outcap_le:
  "\<forall>e \<in> set es. dto e \<notin> R \<longrightarrow> dcap e \<le> eps \<Longrightarrow> outcap R es \<le> eps * of_nat (length es)"
proof (induction es)
  case Nil
  then show ?case by (simp add: outcap_def)
next
  case (Cons e es)
  have "outcap R (e # es) = (if dto e \<in> R then 0 else dcap e) + outcap R es"
    unfolding outcap_def by simp
  moreover have "(if dto e \<in> R then 0 else dcap e) \<le> eps" using Cons.prems eps_pos by simp
  moreover have "outcap R es \<le> eps * of_nat (length es)" using Cons by simp
  ultimately show ?case by (simp add: algebra_simps)
qed

lemma cutcap_le:
  assumes "\<forall>x < length adj. x \<in> R \<longrightarrow> (\<forall>e \<in> set (adj ! x). dto e \<notin> R \<longrightarrow> dcap e \<le> eps)"
  shows "cutcap R adj \<le> eps * of_nat (slots adj)"
proof -
  let ?A = "{x. x < length adj \<and> x \<in> R}"
  have "cutcap R adj \<le> (\<Sum>x \<in> ?A. eps * of_nat (length (adj ! x)))"
    unfolding cutcap_def
  proof (rule sum_mono)
    fix x assume "x \<in> ?A"
    then have "\<forall>e \<in> set (adj ! x). dto e \<notin> R \<longrightarrow> dcap e \<le> eps" using assms by blast
    then show "outcap R (adj ! x) \<le> eps * of_nat (length (adj ! x))" by (rule outcap_le)
  qed
  also have "\<dots> \<le> (\<Sum>x \<in> {0..<length adj}. eps * of_nat (length (adj ! x)))"
    by (rule sum_mono2) (use eps_pos in auto)
  also have "\<dots> = eps * of_nat (\<Sum>x \<in> {0..<length adj}. length (adj ! x))"
    by (simp add: sum_distrib_left)
  also have "(\<Sum>x \<in> {0..<length adj}. length (adj ! x)) = slots adj"
    unfolding slots_def by (simp add: sum_list_sum_nth)
  finally show ?thesis .
qed

lemma chunk_cut_diff:
  assumes "0 \<in> R" "1 \<notin> R"
  shows "chunk_cut {0} p ic - chunk_cut R p ic = (if fst ic + 2 \<in> R then weight0 (snd ic) - p else 0)"
  using assms unfolding chunk_cut_def by simp

lemma closure_of_members: "closure_of cs reach = map chunk_id (members cs reach)"
  unfolding closure_of_def members_def by simp

lemma members_subset: "set (members cs reach) \<subseteq> set cs"
  unfolding members_def by (auto simp: in_set_enumerate_eq)

lemma solved_profit:
  assumes s: "solved g p adj' reach"
  shows "- (eps * of_nat (2 * (length (chunksOf g) + length (edges g))))
         \<le> sum_list (map (\<lambda>c. weight0 c - p) (members (chunksOf g) reach))"
proof -
  let ?net = "network g p"
  let ?cs = "chunksOf g"
  let ?n = "length ?cs"
  let ?en = "enumerate 0 ?cs"
  define R where "R = {v. v < ?n + 2 \<and> reach ! v}"
  have fr: "flow_rel 0 1 ?net adj'"
    and rr: "\<And>v. v < ?n + 2 \<Longrightarrow> reach ! v \<longleftrightarrow> rreach adj' 0 v"
    and nr: "\<not> rreach adj' 0 1"
    using s unfolding solved_def by simp_all
  have inv: "net_inv ?n ?net" by (rule network_inv)
  then have len: "length ?net = ?n + 2" and wf: "wf_adj ?net" unfolding net_inv_def by simp_all
  have sh: "shape adj' = shape ?net" and nn: "caps_nonneg adj'"
    and ct: "\<And>R. 0 \<in> R \<Longrightarrow> 1 \<notin> R \<Longrightarrow> cutcap R ?net - cutcap R adj' = srccap 0 ?net - srccap 0 adj'"
    using fr unfolding flow_rel_def by simp_all
  have wf': "wf_adj adj'" using wf_adj_shape[OF sh wf] .
  have len': "length adj' = ?n + 2" using shape_length[OF sh] len by simp
  have inR: "v \<in> R \<longleftrightarrow> v < ?n + 2 \<and> rreach adj' 0 v" for v
    unfolding R_def using rr by auto
  have r0: "0 \<in> R" unfolding inR by (simp add: rreach_def)
  have r1: "1 \<notin> R" unfolding inR using nr by simp
  have step: "y \<in> R" if "x \<in> R" "redge adj' x y" for x y
  proof -
    have "(redge adj')\<^sup>*\<^sup>* 0 x" using that(1) unfolding inR rreach_def by simp
    then have "(redge adj')\<^sup>*\<^sup>* 0 y" using that(2) by (rule rtranclp.rtrancl_into_rtrancl)
    then have "rreach adj' 0 y" unfolding rreach_def .
    moreover have "y < ?n + 2" using redge_in_range[OF wf' that(2)] len' by simp
    ultimately show ?thesis unfolding inR by simp
  qed
  have small: "\<forall>x < length adj'. x \<in> R \<longrightarrow> (\<forall>e \<in> set (adj' ! x). dto e \<notin> R \<longrightarrow> dcap e \<le> eps)"
  proof (intro allI impI ballI)
    fix x e assume x: "x < length adj'" "x \<in> R" and e: "e \<in> set (adj' ! x)" "dto e \<notin> R"
    show "dcap e \<le> eps"
    proof (rule ccontr)
      assume "\<not> dcap e \<le> eps"
      then have "eps < dcap e" by simp
      then have "redge adj' x (dto e)" unfolding redge_def using x(1) e(1) by blast
      then show False using step[OF x(2)] e(2) by blast
    qed
  qed
  have c1: "cutcap R adj' \<le> eps * of_nat (slots adj')" using cutcap_le[OF small] .
  have "slots adj' \<le> 2 * (?n + length (edges g))"
    using slots_shape[OF sh] slots_network[of g p] by simp
  then have "(of_nat (slots adj') :: rat) \<le> of_nat (2 * (?n + length (edges g)))"
    by (simp only: of_nat_le_iff)
  then have c2: "cutcap R adj' \<le> eps * of_nat (2 * (?n + length (edges g)))"
    using c1 eps_pos by (meson mult_left_mono order_trans less_imp_le)
  have s0: "0 \<le> srccap 0 adj'" unfolding srccap_def using nn by (rule cutcap_nonneg)
  have dep0: "dep_cut R ?cs (INF_g g p) e = 0" if "e \<in> set (edges g)" for e
  proof (cases "findIndex (\<lambda>x. chunk_id x = e_from e) ?cs")
    case None
    then show ?thesis unfolding dep_cut_def by simp
  next
    case (Some f)
    note f = this
    show ?thesis
    proof (cases "findIndex (\<lambda>x. chunk_id x = e_to e) ?cs")
      case None
      then show ?thesis unfolding dep_cut_def using f by simp
    next
      case (Some t)
      have fl: "f + 2 < ?n + 2" using findIndex_Some[OF f] by simp
      have "redge adj' (f + 2) (t + 2)"
        by (rule solved_slot_open[OF s network_slot[OF that f Some] fl])
      then have "f + 2 \<in> R \<Longrightarrow> t + 2 \<in> R" using step by blast
      then show ?thesis unfolding dep_cut_def using f Some by auto
    qed
  qed
  have deps: "sum_list (map (dep_cut R ?cs (INF_g g p)) (edges g)) = 0"
  proof -
    have "sum_list (map (dep_cut R ?cs (INF_g g p)) es) = 0" if "set es \<subseteq> set (edges g)" for es
      using that by (induction es) (simp_all add: dep0)
    then show ?thesis by simp
  qed
  have deps0: "sum_list (map (dep_cut {0} ?cs (INF_g g p)) es) = 0" for es
    by (induction es) (simp_all add: dep_cut_src)
  have "srccap 0 ?net - cutcap R ?net =
        sum_list (map (chunk_cut {0} p) ?en) - sum_list (map (chunk_cut R p) ?en)"
    unfolding srccap_def network_cutcap deps deps0 by simp
  also have "\<dots> = sum_list (map (\<lambda>ic. chunk_cut {0} p ic - chunk_cut R p ic) ?en)"
    by (simp add: sum_list_subtractf)
  also have "\<dots> = sum_list (map (\<lambda>ic. if fst ic + 2 \<in> R then weight0 (snd ic) - p else 0) ?en)"
    unfolding chunk_cut_diff[OF r0 r1] ..
  also have "\<dots> = sum_list (map (\<lambda>ic. if reach ! (fst ic + 2) then weight0 (snd ic) - p else 0) ?en)"
  proof (rule arg_cong[where f = sum_list], rule map_cong[OF refl])
    fix ic assume "ic \<in> set ?en"
    then have "fst ic + 2 < ?n + 2" by (simp add: in_set_enumerate_eq)
    then have "fst ic + 2 \<in> R \<longleftrightarrow> reach ! (fst ic + 2)" unfolding R_def by simp
    then show "(if fst ic + 2 \<in> R then weight0 (snd ic) - p else 0) =
               (if reach ! (fst ic + 2) then weight0 (snd ic) - p else 0)" by simp
  qed
  also have "\<dots> = sum_list (map (\<lambda>ic. weight0 (snd ic) - p) (filter (\<lambda>ic. reach ! (fst ic + 2)) ?en))"
    by (simp only: sum_list_map_filter')
  also have "\<dots> = sum_list (map (\<lambda>c. weight0 c - p) (members ?cs reach))"
    unfolding members_def by (simp add: comp_def)
  finally have eq: "sum_list (map (\<lambda>c. weight0 c - p) (members ?cs reach)) = srccap 0 ?net - cutcap R ?net"
    by simp
  have "srccap 0 ?net - cutcap R ?net = srccap 0 adj' - cutcap R adj'"
    using ct[OF r0 r1] by simp
  then show ?thesis unfolding eq using s0 c2 by simp
qed

lemma weightOf_chunk:
  assumes wf: "wf_graph g" and c: "c \<in> set (chunksOf g)"
  shows "weightOf g (chunk_id c) = weight0 c"
proof -
  obtain k where k: "(k, c) \<in> set (chunks g)" using c unfolding chunksOf_def by auto
  have d: "distinct (map fst (chunks g))" and e: "chunk_id c = k"
    using wf k unfolding wf_graph_def by (auto simp: list_all_iff)
  have "map_of (chunks g) k = Some c" using d k by (rule map_of_is_SomeI)
  then show ?thesis unfolding weightOf_def e by simp
qed

lemma sum_weights_members:
  assumes wf: "wf_graph g" and sub: "set ms \<subseteq> set (chunksOf g)"
  shows "sum_weights g (map chunk_id ms) = sum_list (map weight0 ms)"
proof -
  have "sum_weights g (map chunk_id ms) = sum_list (map (weightOf g) (map chunk_id ms))"
    unfolding sum_weights_def by (simp add: fold_add_abs)
  also have "\<dots> = sum_list (map (\<lambda>c. weightOf g (chunk_id c)) ms)" by (simp add: comp_def)
  also have "\<dots> = sum_list (map weight0 ms)"
    by (rule arg_cong[where f = sum_list], rule map_cong[OF refl]) (use weightOf_chunk[OF wf] sub in blast)
  finally show ?thesis .
qed

lemma buildClosure_weight:
  assumes wf: "wf_graph g" and b: "buildClosure g 0 = Some sol"
  shows "- (eps * of_nat (2 * (length (chunks g) + length (edges g)))) \<le> totalWeight sol"
proof (cases "chunksOf g = []")
  case True
  have "0 \<le> eps * of_nat (2 * (length (chunks g) + length (edges g)))"
    using eps_pos by simp
  then show ?thesis using b buildClosure_empty[OF True, of 0] by auto
next
  case False
  from buildClosure_nonempty[OF False, of 0] b obtain adj' reach where
    s: "solved g 0 adj' reach" and t: "totalWeight sol = sum_weights g (closure_of (chunksOf g) reach)"
    by auto
  have "totalWeight sol = sum_list (map weight0 (members (chunksOf g) reach))"
    unfolding t closure_of_members by (rule sum_weights_members[OF wf members_subset])
  then show ?thesis using solved_profit[OF s] unfolding chunksOf_def by simp
qed

section \<open>Minimum cuts and the penalty\<close>

lemma grid_caps_replicate: "grid_caps m (replicate k [])"
  unfolding grid_caps_def by simp

lemma grid_caps_addEdge:
  assumes "grid_caps m adj" "on_grid m c"
  shows "grid_caps m (addEdge u v c adj)"
proof -
  have app: "grid_caps m (a[x := a ! x @ [e]])" if "grid_caps m a" "on_grid m (dcap e)" for a x e
    unfolding grid_caps_def
  proof (intro allI impI ballI)
    fix u ea assume u: "u < length (a[x := a ! x @ [e]])" and ea: "ea \<in> set (a[x := a ! x @ [e]] ! u)"
    have ua: "u < length a" using u by simp
    have old: "\<forall>e \<in> set (a ! u). on_grid m (dcap e)" using that(1) ua unfolding grid_caps_def by simp
    show "on_grid m (dcap ea)"
    proof (cases "u = x")
      case True
      then have "ea \<in> set (a ! u) \<or> ea = e" using ea ua by auto
      then show ?thesis using old that(2) by blast
    next
      case False
      then have "ea \<in> set (a ! u)" using ea by simp
      then show ?thesis using old by blast
    qed
  qed
  have 1: "grid_caps m (adj[u := adj ! u @ [\<lparr>dto = v, drev = length (adj ! v), dcap = c\<rparr>]])"
    by (rule app) (use assms in simp_all)
  show ?thesis unfolding addEdge_def Let_def
    by (rule app[OF 1]) (simp add: on_grid_0)
qed

lemma grid_caps_add_chunk:
  "grid_caps m adj \<Longrightarrow> on_grid m (weight0 (snd ic) - p) \<Longrightarrow> grid_caps m (add_chunk p ic adj)"
proof -
  assume a: "grid_caps m adj" and w: "on_grid m (weight0 (snd ic) - p)"
  have "grid_caps m (addEdge 0 (fst ic + 2) (weight0 (snd ic) - p) adj)"
    using a w by (rule grid_caps_addEdge)
  moreover have "grid_caps m (addEdge (fst ic + 2) 1 (- (weight0 (snd ic) - p)) adj)"
    using a on_grid_minus[OF w] by (rule grid_caps_addEdge)
  ultimately show ?thesis unfolding add_chunk_def Let_def by (simp only: if_split) blast
qed

lemma grid_caps_fold_add_chunk:
  "\<forall>c \<in> set cs. on_grid m (weight0 c - p) \<Longrightarrow> grid_caps m adj \<Longrightarrow>
   grid_caps m (fold (add_chunk p) (enumerate k cs) adj)"
  by (induction cs arbitrary: k adj) (simp_all add: grid_caps_add_chunk)

lemma grid_caps_add_dep:
  "grid_caps m adj \<Longrightarrow> on_grid m c \<Longrightarrow> grid_caps m (add_dep cs c e adj)"
  unfolding add_dep_def by (simp add: grid_caps_addEdge split: option.splits)

lemma grid_caps_fold_add_dep:
  "grid_caps m adj \<Longrightarrow> on_grid m c \<Longrightarrow> grid_caps m (fold (add_dep cs c) es adj)"
  by (induction es arbitrary: adj) (simp_all add: grid_caps_add_dep)

lemma on_grid_INF:
  assumes "0 < m" "\<forall>c \<in> set cs. on_grid m (weight0 c - p)"
  shows "on_grid m (INF_of (map weight0 cs) p)"
proof -
  have "on_grid m (sum_list (map (\<lambda>w. \<bar>w - p\<bar>) (map weight0 cs)))"
    using assms(2) by (induction cs) (simp_all add: on_grid_0 on_grid_add on_grid_abs)
  then show ?thesis unfolding INF_of_eq using on_grid_1[OF assms(1)] by (rule on_grid_add)
qed

lemma grid_caps_network_gen:
  assumes m: "0 < m" and cs: "\<forall>c \<in> set (chunksOf g). on_grid m (weight0 c - p)"
  shows "grid_caps m (network g p)"
proof -
  have "on_grid m (INF_g g p)" unfolding INF_g_def by (rule on_grid_INF[OF m cs])
  then show ?thesis unfolding network_alt
    by (intro grid_caps_fold_add_dep grid_caps_fold_add_chunk grid_caps_replicate cs)
qed

lemma grid_caps_network:
  assumes "coarse m g p"
  shows "grid_caps m (network g p)"
  by (rule grid_caps_network_gen) (use assms in \<open>simp_all add: coarse_def chunksOf_def\<close>)

lemma outcap_zero: "\<forall>e \<in> set es. dto e \<notin> R \<longrightarrow> dcap e = 0 \<Longrightarrow> outcap R es = 0"
  unfolding outcap_def by (induction es) simp_all

lemma gain_split:
  assumes "A \<inter> B = {}"
  shows "gain g p (A \<union> B) = gain g p A + gain g p B"
proof -
  have "(if x \<in> A \<union> B then (c::rat) else 0) = (if x \<in> A then c else 0) + (if x \<in> B then c else 0)" for x c
    using assms by auto
  then show ?thesis unfolding gain_def by (simp add: sum_list_addf)
qed

lemma gain_mono:
  assumes "p1 \<le> p2"
  shows "gain g p2 S \<le> gain g p1 S"
  unfolding gain_def by (rule sum_list_mono) (use assms in simp)

lemma closed_cutcap:
  assumes s0: "0 \<in> S" and s1: "1 \<notin> S" and cl: "dep_closed g S"
  shows "cutcap S (network g p) = srccap 0 (network g p) - gain g p S"
proof -
  let ?cs = "chunksOf g"
  let ?en = "enumerate 0 ?cs"
  have dep0: "dep_cut S ?cs (INF_g g p) e = 0" if "e \<in> set (edges g)" for e
    using cl that unfolding dep_closed_def dep_cut_def by (auto split: option.splits)
  have deps: "sum_list (map (dep_cut S ?cs (INF_g g p)) (edges g)) = 0"
  proof -
    have "sum_list (map (dep_cut S ?cs (INF_g g p)) es) = 0" if "set es \<subseteq> set (edges g)" for es
      using that by (induction es) (simp_all add: dep0)
    then show ?thesis by simp
  qed
  have deps0: "sum_list (map (dep_cut {0} ?cs (INF_g g p)) es) = 0" for es
    by (induction es) (simp_all add: dep_cut_src)
  have "srccap 0 (network g p) - cutcap S (network g p) =
        sum_list (map (chunk_cut {0} p) ?en) - sum_list (map (chunk_cut S p) ?en)"
    unfolding srccap_def network_cutcap deps deps0 by simp
  also have "\<dots> = sum_list (map (\<lambda>ic. chunk_cut {0} p ic - chunk_cut S p ic) ?en)"
    by (simp add: sum_list_subtractf)
  also have "\<dots> = gain g p S"
    unfolding chunk_cut_diff[OF s0 s1] gain_def ..
  finally show ?thesis by simp
qed

lemma solved_reachSet:
  assumes s: "solved g p adj' reach"
  shows "v \<in> reachSet reach \<longleftrightarrow> v < length (chunksOf g) + 2 \<and> rreach adj' 0 v"
  using s unfolding solved_def reachSet_def by auto

lemma solved_reachSet_step:
  assumes s: "solved g p adj' reach" and x: "x \<in> reachSet reach" and e: "redge adj' x y"
  shows "y \<in> reachSet reach"
proof -
  let ?n = "length (chunksOf g)"
  have fr: "flow_rel 0 1 (network g p) adj'" using s unfolding solved_def by simp
  have len: "length (network g p) = ?n + 2" and wf: "wf_adj (network g p)"
    using network_inv[of g p] unfolding net_inv_def by simp_all
  have sh: "shape adj' = shape (network g p)" using fr unfolding flow_rel_def by simp
  have wf': "wf_adj adj'" using wf_adj_shape[OF sh wf] .
  have len': "length adj' = ?n + 2" using shape_length[OF sh] len by simp
  have "(redge adj')\<^sup>*\<^sup>* 0 x" using x unfolding solved_reachSet[OF s] rreach_def by simp
  then have "(redge adj')\<^sup>*\<^sup>* 0 y" using e by (rule rtranclp.rtrancl_into_rtrancl)
  then have "rreach adj' 0 y" unfolding rreach_def .
  moreover have "y < ?n + 2" using redge_in_range[OF wf' e] len' by simp
  ultimately show ?thesis unfolding solved_reachSet[OF s] by simp
qed

lemma solved_reachSet_ends:
  assumes s: "solved g p adj' reach"
  shows "0 \<in> reachSet reach" "1 \<notin> reachSet reach"
proof -
  show "0 \<in> reachSet reach" unfolding solved_reachSet[OF s] by (simp add: rreach_def)
  have "\<not> rreach adj' 0 1" using s unfolding solved_def by simp
  then show "1 \<notin> reachSet reach" unfolding solved_reachSet[OF s] by simp
qed

lemma solved_dep_closed:
  assumes s: "solved g p adj' reach"
  shows "dep_closed g (reachSet reach)"
  unfolding dep_closed_def
proof (intro ballI allI impI)
  fix e f t
  assume e: "e \<in> set (edges g)"
    and f: "findIndex (\<lambda>x. chunk_id x = e_from e) (chunksOf g) = Some f"
    and t: "findIndex (\<lambda>x. chunk_id x = e_to e) (chunksOf g) = Some t"
    and m: "f + 2 \<in> reachSet reach"
  have fl: "f + 2 < length (chunksOf g) + 2" using findIndex_Some[OF f] by simp
  have "redge adj' (f + 2) (t + 2)"
    by (rule solved_slot_open[OF s network_slot[OF e f t] fl])
  then show "t + 2 \<in> reachSet reach" using solved_reachSet_step[OF s m] by blast
qed

lemma dep_closed_Un: "dep_closed g A \<Longrightarrow> dep_closed g B \<Longrightarrow> dep_closed g (A \<union> B)"
  unfolding dep_closed_def by blast

lemma dep_closed_Int: "dep_closed g A \<Longrightarrow> dep_closed g B \<Longrightarrow> dep_closed g (A \<inter> B)"
  unfolding dep_closed_def by blast

lemma solved_cut_zero:
  assumes s: "solved g p adj' reach" and c: "coarse m g p"
  shows "cutcap (reachSet reach) adj' = 0"
proof -
  let ?R = "reachSet reach"
  have fr: "flow_rel 0 1 (network g p) adj'"
    and gc: "grid_caps m adj'"
    using s grid_caps_network[OF c] unfolding solved_def by simp_all
  have nn: "caps_nonneg adj'" using fr unfolding flow_rel_def by simp
  have m: "0 < m" "m < 1000000000" using c unfolding coarse_def by simp_all
  have z: "dcap e = 0" if x: "x < length adj'" "x \<in> ?R" and e: "e \<in> set (adj' ! x)" "dto e \<notin> ?R" for x e
  proof -
    have le: "dcap e \<le> eps"
    proof (rule ccontr)
      assume "\<not> dcap e \<le> eps"
      then have "eps < dcap e" by simp
      then have "redge adj' x (dto e)" unfolding redge_def using x(1) e(1) by blast
      then show False using solved_reachSet_step[OF s x(2)] e(2) by blast
    qed
    obtain j where j: "j < length (adj' ! x)" "adj' ! x ! j = e"
      using e(1) unfolding in_set_conv_nth by blast
    have ge: "0 \<le> dcap e" using nn x(1) j unfolding caps_nonneg_def by blast
    have og: "on_grid m (dcap e)" using gc x(1) e(1) unfolding grid_caps_def by blast
    show ?thesis by (rule on_grid_small[OF m og ge le])
  qed
  have "outcap ?R (adj' ! x) = 0" if "x \<in> {x. x < length adj' \<and> x \<in> ?R}" for x
    by (rule outcap_zero) (use z that in blast)
  then show ?thesis unfolding cutcap_def by (rule sum.neutral[OF ballI])
qed

lemma solved_min_cut:
  assumes s: "solved g p adj' reach" and c: "coarse m g p" and s0: "0 \<in> S" and s1: "1 \<notin> S"
  shows "cutcap S (network g p) = cutcap (reachSet reach) (network g p) + cutcap S adj'"
proof -
  have ct: "\<And>R. 0 \<in> R \<Longrightarrow> 1 \<notin> R \<Longrightarrow>
      cutcap R (network g p) - cutcap R adj' = srccap 0 (network g p) - srccap 0 adj'"
    using s unfolding solved_def flow_rel_def by simp
  have "cutcap (reachSet reach) (network g p) = srccap 0 (network g p) - srccap 0 adj'"
    using ct[OF solved_reachSet_ends[OF s]] solved_cut_zero[OF s c] by simp
  then show ?thesis using ct[OF s0 s1] by simp
qed

lemma cutcap_zero_step:
  assumes nn: "caps_nonneg adj" and z: "cutcap S adj = 0" and x: "x \<in> S" and r: "redge adj x y"
  shows "y \<in> S"
proof (rule ccontr)
  assume y: "y \<notin> S"
  obtain e where xl: "x < length adj" and e: "e \<in> set (adj ! x)" "eps < dcap e" "dto e = y"
    using r unfolding redge_def by blast
  let ?A = "{x. x < length adj \<and> x \<in> S}"
  have fin: "finite ?A" by simp
  have rows: "\<forall>u \<in> ?A. 0 \<le> outcap S (adj ! u)"
    using nn unfolding caps_nonneg_def by (simp add: outcap_nonneg)
  have "\<forall>u \<in> ?A. outcap S (adj ! u) = 0"
    using z sum_nonneg_eq_0_iff[OF fin, of "\<lambda>u. outcap S (adj ! u)"] rows unfolding cutcap_def by blast
  then have o: "outcap S (adj ! x) = 0" using x xl by simp
  have terms: "\<And>t. t \<in> set (map (\<lambda>e. if dto e \<in> S then 0 else dcap e) (adj ! x)) \<Longrightarrow> 0 \<le> t"
    using nn xl unfolding caps_nonneg_def by (auto simp: in_set_conv_nth)
  have "\<forall>t \<in> set (map (\<lambda>e. if dto e \<in> S then 0 else dcap e) (adj ! x)). t = 0"
    using o sum_list_nonneg_eq_0_iff[OF terms] unfolding outcap_def by blast
  then have "(if dto e \<in> S then 0 else dcap e) = 0" using e(1) by simp
  then show False using e(2,3) y eps_pos by simp
qed

lemma solved_minimal:
  assumes s: "solved g p adj' reach" and s0: "0 \<in> S" and z: "cutcap S adj' = 0"
  shows "reachSet reach \<subseteq> S"
proof
  fix v assume "v \<in> reachSet reach"
  then have r: "(redge adj')\<^sup>*\<^sup>* 0 v" unfolding solved_reachSet[OF s] rreach_def by simp
  have nn: "caps_nonneg adj'" using s unfolding solved_def flow_rel_def by simp
  from r show "v \<in> S"
    by (induction rule: rtranclp_induct) (use s0 cutcap_zero_step[OF nn z] in blast)+
qed

lemma solved_monotone:
  assumes s1: "solved g p1 a1 r1" and s2: "solved g p2 a2 r2"
    and c1: "coarse m1 g p1" and c2: "coarse m2 g p2" and le: "p1 \<le> p2"
  shows "reachSet r2 \<subseteq> reachSet r1"
proof -
  let ?R1 = "reachSet r1"
  let ?R2 = "reachSet r2"
  let ?D = "?R2 - ?R1"
  have u0: "0 \<in> ?R1 \<union> ?R2" and u1: "1 \<notin> ?R1 \<union> ?R2"
    and i0: "0 \<in> ?R1 \<inter> ?R2" and i1: "1 \<notin> ?R1 \<inter> ?R2"
    using solved_reachSet_ends[OF s1] solved_reachSet_ends[OF s2] by simp_all
  have cl1: "dep_closed g ?R1" and cl2: "dep_closed g ?R2"
    using solved_dep_closed[OF s1] solved_dep_closed[OF s2] by simp_all
  have clu: "dep_closed g (?R1 \<union> ?R2)" using dep_closed_Un[OF cl1 cl2] .
  have cli: "dep_closed g (?R1 \<inter> ?R2)" using dep_closed_Int[OF cl1 cl2] .
  have nn1: "caps_nonneg a1" using s1 unfolding solved_def flow_rel_def by simp
  have nn2: "caps_nonneg a2" using s2 unfolding solved_def flow_rel_def by simp
  have "cutcap ?R1 (network g p1) \<le> cutcap (?R1 \<union> ?R2) (network g p1)"
    using solved_min_cut[OF s1 c1 u0 u1] cutcap_nonneg[OF nn1, of "?R1 \<union> ?R2"] by simp
  then have "gain g p1 (?R1 \<union> ?R2) \<le> gain g p1 ?R1"
    unfolding closed_cutcap[OF u0 u1 clu] closed_cutcap[OF solved_reachSet_ends[OF s1] cl1] by simp
  moreover have "gain g p1 (?R1 \<union> ?D) = gain g p1 ?R1 + gain g p1 ?D"
    by (rule gain_split) blast
  moreover have "?R1 \<union> ?D = ?R1 \<union> ?R2" by blast
  ultimately have d1: "gain g p1 ?D \<le> 0" by simp
  have d2: "gain g p2 ?D \<le> 0" using gain_mono[OF le, of g ?D] d1 by simp
  have "gain g p2 ((?R1 \<inter> ?R2) \<union> ?D) = gain g p2 (?R1 \<inter> ?R2) + gain g p2 ?D"
    by (rule gain_split) blast
  moreover have "(?R1 \<inter> ?R2) \<union> ?D = ?R2" by blast
  ultimately have "gain g p2 ?R2 \<le> gain g p2 (?R1 \<inter> ?R2)" using d2 by simp
  then have "cutcap (?R1 \<inter> ?R2) (network g p2) \<le> cutcap ?R2 (network g p2)"
    unfolding closed_cutcap[OF i0 i1 cli] closed_cutcap[OF solved_reachSet_ends[OF s2] cl2] by simp
  then have "cutcap (?R1 \<inter> ?R2) a2 \<le> 0"
    using solved_min_cut[OF s2 c2 i0 i1] by simp
  then have "cutcap (?R1 \<inter> ?R2) a2 = 0"
    using cutcap_nonneg[OF nn2, of "?R1 \<inter> ?R2"] by simp
  from solved_minimal[OF s2 i0 this] show ?thesis by blast
qed

lemma closure_of_mono:
  assumes l1: "length r1 = length cs + 2" and l2: "length r2 = length cs + 2"
    and sub: "reachSet r2 \<subseteq> reachSet r1"
  shows "set (closure_of cs r2) \<subseteq> set (closure_of cs r1) \<and>
         length (closure_of cs r2) \<le> length (closure_of cs r1)"
proof -
  let ?en = "enumerate 0 cs"
  let ?P1 = "\<lambda>ic. r1 ! (fst ic + 2)"
  let ?P2 = "\<lambda>ic. r2 ! (fst ic + 2)"
  have imp: "?P1 ic" if "ic \<in> set ?en" "?P2 ic" for ic
  proof -
    have "fst ic + 2 < length cs + 2" using that(1) by (simp add: in_set_enumerate_eq)
    then have "fst ic + 2 \<in> reachSet r2" using that(2) l2 unfolding reachSet_def by simp
    then have "fst ic + 2 \<in> reachSet r1" using sub by blast
    then show ?thesis unfolding reachSet_def by simp
  qed
  have eq: "filter ?P2 ?en = filter ?P2 (filter ?P1 ?en)"
    unfolding filter_filter by (rule filter_cong[OF refl]) (use imp in blast)
  have "set (filter ?P2 ?en) \<subseteq> set (filter ?P1 ?en)" by (subst eq) (rule filter_is_subset)
  moreover have "length (filter ?P2 ?en) \<le> length (filter ?P1 ?en)"
    by (subst eq) (rule length_filter_le)
  ultimately show ?thesis unfolding closure_of_def by auto
qed

lemma buildClosure_monotone:
  assumes c1: "coarse m1 g p1" and c2: "coarse m2 g p2" and le: "p1 \<le> p2"
  shows "\<exists>s1 s2. buildClosure g p1 = Some s1 \<and> buildClosure g p2 = Some s2 \<and>
           set (closure s2) \<subseteq> set (closure s1) \<and> csize s2 \<le> csize s1"
proof (cases "chunksOf g = []")
  case True
  then show ?thesis by (simp add: buildClosure_empty)
next
  case False
  from buildClosure_nonempty[OF False, of p1] obtain a1 r1 where
    s1: "solved g p1 a1 r1" and b1: "buildClosure g p1 = Some \<lparr>closure = closure_of (chunksOf g) r1,
        totalWeight = sum_weights g (closure_of (chunksOf g) r1),
        csize = length (closure_of (chunksOf g) r1), penalty = Some p1\<rparr>" by blast
  from buildClosure_nonempty[OF False, of p2] obtain a2 r2 where
    s2: "solved g p2 a2 r2" and b2: "buildClosure g p2 = Some \<lparr>closure = closure_of (chunksOf g) r2,
        totalWeight = sum_weights g (closure_of (chunksOf g) r2),
        csize = length (closure_of (chunksOf g) r2), penalty = Some p2\<rparr>" by blast
  have l1: "length r1 = length (chunksOf g) + 2" using s1 unfolding solved_def by simp
  have l2: "length r2 = length (chunksOf g) + 2" using s2 unfolding solved_def by simp
  from closure_of_mono[OF l1 l2 solved_monotone[OF s1 s2 c1 c2 le]]
  show ?thesis unfolding b1 b2 by simp
qed

section \<open>Computing without rounding\<close>

lemma caps_le_replicate: "caps_le B (replicate k [])"
  unfolding caps_le_def by simp

lemma caps_le_addEdge:
  assumes "caps_le B adj" "c \<le> B" "0 \<le> B"
  shows "caps_le B (addEdge u v c adj)"
proof -
  have app: "caps_le B (a[x := a ! x @ [e]])" if "caps_le B a" "dcap e \<le> B" for a x e
    unfolding caps_le_def
  proof (intro allI impI ballI)
    fix y ea assume y: "y < length (a[x := a ! x @ [e]])" and ea: "ea \<in> set (a[x := a ! x @ [e]] ! y)"
    have ya: "y < length a" using y by simp
    have old: "\<forall>e \<in> set (a ! y). dcap e \<le> B" using that(1) ya unfolding caps_le_def by simp
    show "dcap ea \<le> B"
    proof (cases "y = x")
      case True
      then have "ea \<in> set (a ! y) \<or> ea = e" using ea ya by auto
      then show ?thesis using old that(2) by blast
    next
      case False
      then have "ea \<in> set (a ! y)" using ea by simp
      then show ?thesis using old by blast
    qed
  qed
  have 1: "caps_le B (adj[u := adj ! u @ [\<lparr>dto = v, drev = length (adj ! v), dcap = c\<rparr>]])"
    by (rule app) (use assms in simp_all)
  show ?thesis unfolding addEdge_def Let_def
    by (rule app[OF 1]) (simp add: assms(3))
qed

lemma caps_le_fold_add_chunk:
  "\<forall>c \<in> set cs. \<bar>weight0 c - p\<bar> \<le> B \<Longrightarrow> 0 \<le> B \<Longrightarrow> caps_le B adj \<Longrightarrow>
   caps_le B (fold (add_chunk p) (enumerate k cs) adj)"
proof (induction cs arbitrary: k adj)
  case Nil
  then show ?case by simp
next
  case (Cons c cs)
  have w: "\<bar>weight0 c - p\<bar> \<le> B" using Cons.prems(1) by simp
  have "caps_le B (addEdge 0 (k + 2) (weight0 c - p) adj)"
    by (rule caps_le_addEdge[OF Cons.prems(3) _ Cons.prems(2)]) (use w in simp)
  moreover have "caps_le B (addEdge (k + 2) 1 (- (weight0 c - p)) adj)"
    by (rule caps_le_addEdge[OF Cons.prems(3) _ Cons.prems(2)]) (use w in simp)
  ultimately have "caps_le B (add_chunk p (k, c) adj)"
    unfolding add_chunk_def Let_def by (simp only: if_split fst_conv snd_conv) blast
  then show ?case using Cons.IH[of "add_chunk p (k, c) adj" "Suc k"] Cons.prems by simp
qed

lemma caps_le_fold_add_dep:
  "caps_le B adj \<Longrightarrow> c \<le> B \<Longrightarrow> 0 \<le> B \<Longrightarrow> caps_le B (fold (add_dep cs c) es adj)"
proof (induction es arbitrary: adj)
  case Nil
  then show ?case by simp
next
  case (Cons e es)
  have "caps_le B (add_dep cs c e adj)"
    unfolding add_dep_def using caps_le_addEdge[OF Cons.prems] Cons.prems(1)
    by (simp split: option.splits)
  then show ?case using Cons.IH Cons.prems by simp
qed

lemma abs_le_INF_of:
  assumes "c \<in> set cs"
  shows "\<bar>weight0 c - p\<bar> \<le> INF_of (map weight0 cs) p - 1"
proof -
  have "\<bar>weight0 c - p\<bar> \<le> sum_list (map (\<lambda>w. \<bar>w - p\<bar>) (map weight0 cs))"
    using assms
  proof (induction cs)
    case Nil
    then show ?case by simp
  next
    case (Cons d cs)
    have nn: "0 \<le> sum_list (map (\<lambda>w. \<bar>w - p\<bar>) (map weight0 cs))"
      by (rule sum_list_nonneg) auto
    show ?case
    proof (cases "c = d")
      case True
      then show ?thesis using nn by simp
    next
      case False
      then have "c \<in> set cs" using Cons.prems by simp
      from Cons.IH[OF this] show ?thesis by simp
    qed
  qed
  then show ?thesis unfolding INF_of_eq by simp
qed

lemma network_caps_le: "caps_le (INF_g g p) (network g p)"
proof -
  have i: "0 \<le> INF_g g p" using INF_of_ge1[of "map weight0 (chunksOf g)" p] unfolding INF_g_def by simp
  have w: "\<forall>c \<in> set (chunksOf g). \<bar>weight0 c - p\<bar> \<le> INF_g g p"
    using abs_le_INF_of[of _ "chunksOf g" p] unfolding INF_g_def by fastforce
  show ?thesis unfolding network_alt
    by (intro caps_le_fold_add_dep caps_le_fold_add_chunk caps_le_replicate w i order_refl)
qed

lemma pow2_nat: "(of_nat (2 ^ s) :: rat) = 2 ^ s"
  by simp

lemma exact_at_grid:
  assumes "exact_at s g p"
  shows "\<forall>c \<in> set (chunksOf g). on_grid (2 ^ s) (weight0 c - p)"
  using assms unfolding exact_at_def fixed_def chunksOf_def by (auto intro: on_grid_diff)

lemma exact_at_coarse:
  assumes e: "exact_at s g p" and s: "s \<le> 29"
  shows "coarse (2 ^ s) g p"
proof -
  have "(2::nat) ^ s \<le> 2 ^ 29" using s by (rule power_increasing) simp
  then have "(2::nat) ^ s < 1000000000" by simp
  then show ?thesis unfolding coarse_def using exact_at_grid[OF e] unfolding chunksOf_def by simp
qed

text \<open>Under \<open>exact_at\<close>, \<open>INF\<close> and every capacity of the network and of the residual
  network that \<open>maxFlow\<close> leaves are fixed-point numbers: a capacity is non-negative, a
  multiple of 2^-s, and never more than its initial value plus the flow, which is below
  2 * \<open>INF\<close>.\<close>

lemma exact_INF:
  assumes e: "exact_at s g p"
  shows "fixed s (INF_g g p)"
proof -
  have g: "on_grid (2 ^ s) (INF_g g p)"
    unfolding INF_g_def by (rule on_grid_INF[OF _ exact_at_grid[OF e]]) simp
  have "0 \<le> INF_g g p" using INF_of_ge1[of "map weight0 (chunksOf g)" p] unfolding INF_g_def by simp
  moreover have "INF_g g p * 2 ^ s \<le> 2 ^ 52" using e unfolding exact_at_def INF_g_def chunksOf_def by simp
  ultimately have "\<bar>INF_g g p\<bar> * 2 ^ s \<le> 2 ^ 53" by simp
  then show ?thesis unfolding fixed_def using g by simp
qed

lemma exact_network:
  assumes e: "exact_at s g p" and u: "u < length (network g p)" and m: "x \<in> set (network g p ! u)"
  shows "fixed s (dcap x)"
proof -
  have g: "grid_caps (2 ^ s) (network g p)"
    by (rule grid_caps_network_gen[OF _ exact_at_grid[OF e]]) simp
  have nn: "caps_nonneg (network g p)" using network_inv[of g p] unfolding net_inv_def by simp
  obtain j where j: "j < length (network g p ! u)" "network g p ! u ! j = x"
    using m unfolding in_set_conv_nth by blast
  have 0: "0 \<le> dcap x" using nn u j unfolding caps_nonneg_def by blast
  have le: "dcap x \<le> INF_g g p" using network_caps_le[of g p] u m unfolding caps_le_def by blast
  have i: "INF_g g p * 2 ^ s \<le> 2 ^ 52" using e unfolding exact_at_def INF_g_def chunksOf_def by simp
  have a: "dcap x * 2 ^ s \<le> INF_g g p * 2 ^ s" by (rule mult_right_mono[OF le]) simp
  have c: "(2::rat) ^ 52 \<le> 2 ^ 53" by simp
  have "dcap x * 2 ^ s \<le> 2 ^ 53" using a i c by (rule order_trans[OF order_trans])
  then have "\<bar>dcap x\<bar> * 2 ^ s \<le> 2 ^ 53" unfolding abs_of_nonneg[OF 0] .
  moreover have "on_grid (2 ^ s) (dcap x)" using g u m unfolding grid_caps_def by blast
  ultimately show ?thesis unfolding fixed_def by simp
qed

lemma exact_residual:
  assumes e: "exact_at s g p" and sv: "solved g p adj' reach"
    and u: "u < length adj'" and m: "x \<in> set (adj' ! u)"
  shows "fixed s (dcap x)"
proof -
  let ?net = "network g p"
  have fr: "flow_rel 0 1 ?net adj'"
    and gc: "grid_caps (2 ^ s) ?net \<Longrightarrow> grid_caps (2 ^ s) adj'"
    using sv unfolding solved_def by simp_all
  have sh: "shape adj' = shape ?net" and nn: "caps_nonneg adj'"
    and ur: "\<And>u j. u < length ?net \<Longrightarrow> j < length (?net ! u) \<Longrightarrow>
        dcap (adj' ! u ! j) - dcap (?net ! u ! j) \<le> srccap 0 ?net - srccap 0 adj'"
    using fr unfolding flow_rel_def by simp_all
  have g: "grid_caps (2 ^ s) adj'"
    by (rule gc, rule grid_caps_network_gen[OF _ exact_at_grid[OF e]]) simp
  obtain j where j: "j < length (adj' ! u)" "adj' ! u ! j = x"
    using m unfolding in_set_conv_nth by blast
  have un: "u < length ?net" using u shape_length[OF sh] by simp
  have jn: "j < length (?net ! u)" using j(1) shape_row_length[OF sh un] by simp
  have 0: "0 \<le> dcap x" using nn u j unfolding caps_nonneg_def by blast
  have s0: "0 \<le> srccap 0 adj'" unfolding srccap_def using nn by (rule cutcap_nonneg)
  have "?net ! u ! j \<in> set (?net ! u)" using jn by simp
  then have c0: "dcap (?net ! u ! j) \<le> INF_g g p"
    using network_caps_le[of g p] un unfolding caps_le_def by blast
  have "dcap x \<le> dcap (?net ! u ! j) + srccap 0 ?net" using ur[OF un jn] s0 j(2) by simp
  then have le: "dcap x \<le> 2 * INF_g g p" using c0 network_srccap[of g p] by simp
  have i: "INF_g g p * 2 ^ s \<le> 2 ^ 52" using e unfolding exact_at_def INF_g_def chunksOf_def by simp
  have a: "dcap x * 2 ^ s \<le> (2 * INF_g g p) * 2 ^ s" by (rule mult_right_mono[OF le]) simp
  have b: "(2 * INF_g g p) * 2 ^ s = 2 * (INF_g g p * 2 ^ s)" by (simp only: mult.assoc)
  have "2 * (INF_g g p * 2 ^ s) \<le> 2 * 2 ^ 52" using i by (simp only: mult_le_cancel_left_pos zero_less_numeral)
  moreover have "(2::rat) * 2 ^ 52 = 2 ^ 53" by simp
  ultimately have "dcap x * 2 ^ s \<le> 2 ^ 53" using a unfolding b by (simp only: order_trans)
  then have "\<bar>dcap x\<bar> * 2 ^ s \<le> 2 ^ 53" unfolding abs_of_nonneg[OF 0] .
  moreover have "on_grid (2 ^ s) (dcap x)" using g u m unfolding grid_caps_def by blast
  ultimately show ?thesis unfolding fixed_def by simp
qed

lemma gain_members:
  assumes "length reach = length (chunksOf g) + 2"
  shows "gain g p (reachSet reach) = sum_list (map (\<lambda>c. weight0 c - p) (members (chunksOf g) reach))"
proof -
  let ?en = "enumerate 0 (chunksOf g)"
  have "gain g p (reachSet reach) =
        sum_list (map (\<lambda>ic. if reach ! (fst ic + 2) then weight0 (snd ic) - p else 0) ?en)"
    unfolding gain_def
  proof (rule arg_cong[where f = sum_list], rule map_cong[OF refl])
    fix ic assume "ic \<in> set ?en"
    then have "fst ic + 2 < length reach" using assms by (simp add: in_set_enumerate_eq)
    then have "fst ic + 2 \<in> reachSet reach \<longleftrightarrow> reach ! (fst ic + 2)" unfolding reachSet_def by simp
    then show "(if fst ic + 2 \<in> reachSet reach then weight0 (snd ic) - p else 0) =
               (if reach ! (fst ic + 2) then weight0 (snd ic) - p else 0)" by simp
  qed
  also have "\<dots> = sum_list (map (\<lambda>ic. weight0 (snd ic) - p) (filter (\<lambda>ic. reach ! (fst ic + 2)) ?en))"
    by (simp only: sum_list_map_filter')
  also have "\<dots> = sum_list (map (\<lambda>c. weight0 c - p) (members (chunksOf g) reach))"
    unfolding members_def by (simp add: comp_def)
  finally show ?thesis .
qed

lemma solved_profit_coarse:
  assumes s: "solved g p adj' reach" and c: "coarse m g p"
  shows "0 \<le> sum_list (map (\<lambda>c. weight0 c - p) (members (chunksOf g) reach))"
proof -
  let ?R = "reachSet reach"
  have len: "length reach = length (chunksOf g) + 2" using s unfolding solved_def by simp
  have nn: "caps_nonneg adj'"
    and ct: "\<And>R. 0 \<in> R \<Longrightarrow> 1 \<notin> R \<Longrightarrow>
      cutcap R (network g p) - cutcap R adj' = srccap 0 (network g p) - srccap 0 adj'"
    using s unfolding solved_def flow_rel_def by simp_all
  have "gain g p ?R = srccap 0 (network g p) - cutcap ?R (network g p)"
    using closed_cutcap[OF solved_reachSet_ends[OF s] solved_dep_closed[OF s], of p] by simp
  also have "\<dots> = srccap 0 adj'"
    using ct[OF solved_reachSet_ends[OF s]] solved_cut_zero[OF s c] by simp
  finally have "gain g p ?R = srccap 0 adj'" .
  moreover have "0 \<le> srccap 0 adj'" unfolding srccap_def using nn by (rule cutcap_nonneg)
  ultimately show ?thesis using gain_members[OF len, of p] by simp
qed

lemma buildClosure_weight_coarse:
  assumes wf: "wf_graph g" and c: "coarse m g 0" and b: "buildClosure g 0 = Some sol"
  shows "0 \<le> totalWeight sol"
proof (cases "chunksOf g = []")
  case True
  then show ?thesis using b buildClosure_empty[OF True, of 0] by auto
next
  case False
  from buildClosure_nonempty[OF False, of 0] b obtain adj' reach where
    s: "solved g 0 adj' reach" and t: "totalWeight sol = sum_weights g (closure_of (chunksOf g) reach)"
    by auto
  have "totalWeight sol = sum_list (map weight0 (members (chunksOf g) reach))"
    unfolding t closure_of_members by (rule sum_weights_members[OF wf members_subset])
  then show ?thesis using solved_profit_coarse[OF s c] by simp
qed

section \<open>The penalties of the search\<close>

lemma on_grid_mult:
  assumes "on_grid m x" "0 < k"
  shows "on_grid (m * k) x"
proof -
  obtain a :: int where a: "x = of_int a / of_nat m" using assms(1) unfolding on_grid_def by blast
  have "x = of_int (a * int k) / of_nat (m * k)" unfolding a using assms(2) by simp
  then show ?thesis unfolding on_grid_def by blast
qed

lemma on_grid_pow_mono:
  assumes "on_grid (2 ^ a) x" "a \<le> b"
  shows "on_grid (2 ^ b) x"
proof -
  have "(2::nat) ^ b = 2 ^ a * 2 ^ (b - a)" using assms(2) by (simp add: power_add[symmetric])
  then show ?thesis using on_grid_mult[OF assms(1), of "2 ^ (b - a)"] by simp
qed

lemma on_grid_half:
  assumes "on_grid m x"
  shows "on_grid (2 * m) (x / 2)"
proof -
  obtain a :: int where a: "x = of_int a / of_nat m" using assms unfolding on_grid_def by blast
  have "x / 2 = of_int a / of_nat (2 * m)" unfolding a by simp
  then show ?thesis unfolding on_grid_def by blast
qed

lemma on_grid_of_int:
  assumes "0 < m"
  shows "on_grid m (of_int k)"
proof -
  have "(of_int k :: rat) = of_int (k * int m) / of_nat m" using assms by simp
  then show ?thesis unfolding on_grid_def by blast
qed

lemma on_grid_intI:
  assumes "x * of_nat m = of_int k" "0 < m"
  shows "on_grid m x"
proof -
  have "x = of_int k / of_nat m" using assms by (simp add: field_simps)
  then show ?thesis unfolding on_grid_def by blast
qed

lemma on_grid_5: "on_grid (2 ^ s) 5"
  using on_grid_of_int[of "2 ^ s" 5] by simp

lemma sum_list_le_const:
  fixes f :: "'a \<Rightarrow> rat"
  assumes "\<forall>x \<in> set xs. f x \<le> c"
  shows "sum_list (map f xs) \<le> of_nat (length xs) * c"
  using assms by (induction xs) (auto simp: algebra_simps)

lemma fold_min_in: "fold min ws (a::rat) \<in> insert a (set ws)"
  by (induction ws arbitrary: a) (auto simp: min_def)

lemma fold_max_in: "fold max ws (a::rat) \<in> insert a (set ws)"
  by (induction ws arbitrary: a) (auto simp: max_def)

lemma exact_search_W:
  assumes es: "exact_search s W g" and ne: "chunks g \<noteq> []"
  shows "0 \<le> W"
proof -
  obtain kc where "kc \<in> set (chunks g)" using ne by (cases "chunks g") auto
  then have "\<bar>weight0 (snd kc)\<bar> \<le> W" using es unfolding exact_search_def by simp
  then show ?thesis by simp
qed

lemma exact_at_penalty:
  assumes es: "exact_search s W g" and ne: "chunks g \<noteq> []"
    and pg: "on_grid (2 ^ (s + 36)) p" and pb: "\<bar>p\<bar> \<le> 2 * W + 5"
  shows "exact_at (s + 36) g p"
proof -
  let ?cs = "map snd (chunks g)"
  let ?B = "of_nat (length (chunks g) + 2) * (3 * W + 5) + 1 :: rat"
  let ?n = "of_nat (length (chunks g)) :: rat"
  have w0: "0 \<le> W" by (rule exact_search_W[OF es ne])
  have B: "?B * 2 ^ (s + 36) \<le> 2 ^ 52"
    and all: "\<forall>c \<in> set ?cs. on_grid (2 ^ s) (weight0 c) \<and> \<bar>weight0 c\<bar> \<le> W"
    using es unfolding exact_search_def by blast+
  have gw: "\<And>c. c \<in> set ?cs \<Longrightarrow> on_grid (2 ^ s) (weight0 c)"
    and bw: "\<And>c. c \<in> set ?cs \<Longrightarrow> \<bar>weight0 c\<bar> \<le> W"
    using all by blast+
  define N where "N = ?n * (3 * W + 5)"
  have Bexp: "?B = N + 2 * (3 * W + 5) + 1" unfolding N_def by (simp add: algebra_simps)
  have nW: "0 \<le> N" unfolding N_def using w0 by simp
  have up: "x * 2 ^ (s + 36) \<le> 2 ^ 53" if "x \<le> ?B" for x :: rat
  proof -
    have "x * 2 ^ (s + 36) \<le> ?B * 2 ^ (s + 36)" by (rule mult_right_mono[OF that]) simp
    moreover have "(2::rat) ^ 52 \<le> 2 ^ 53" by simp
    ultimately show ?thesis using B by (meson order_trans)
  qed
  have fw: "fixed (s + 36) (weight0 c)" if c: "c \<in> set ?cs" for c
  proof -
    have "on_grid (2 ^ (s + 36)) (weight0 c)" by (rule on_grid_pow_mono[OF gw[OF c]]) simp
    moreover have "\<bar>weight0 c\<bar> \<le> ?B" using bw[OF c] w0 nW unfolding Bexp by simp
    ultimately show ?thesis unfolding fixed_def using up by simp
  qed
  have fp: "fixed (s + 36) p"
  proof -
    have "\<bar>p\<bar> \<le> ?B" using pb w0 nW unfolding Bexp by simp
    then show ?thesis unfolding fixed_def using pg up by simp
  qed
  have "sum_list (map (\<lambda>c. \<bar>weight0 c - p\<bar>) ?cs) \<le> of_nat (length ?cs) * (3 * W + 5)"
  proof (rule sum_list_le_const, rule ballI)
    fix c assume "c \<in> set ?cs"
    from bw[OF this] show "\<bar>weight0 c - p\<bar> \<le> 3 * W + 5" using pb by (simp add: abs_le_iff)
  qed
  then have "INF_of (map weight0 ?cs) p \<le> N + 1"
    unfolding INF_of_eq N_def by (simp add: comp_def)
  then have le: "INF_of (map weight0 ?cs) p \<le> ?B" using w0 unfolding Bexp by simp
  have "INF_of (map weight0 ?cs) p * 2 ^ (s + 36) \<le> ?B * 2 ^ (s + 36)"
    by (rule mult_right_mono[OF le]) simp
  then have "INF_of (map weight0 ?cs) p * 2 ^ (s + 36) \<le> 2 ^ 52" using B by (rule order_trans)
  then show ?thesis unfolding exact_at_def using fw fp by blast
qed

lemma search_exact:
  assumes es: "exact_search s W g" and ne: "chunks g \<noteq> []"
  shows "n \<le> 36 \<Longrightarrow> on_grid (2 ^ (s + 36 - n)) low \<Longrightarrow> on_grid (2 ^ (s + 36 - n)) high \<Longrightarrow>
         \<bar>low\<bar> \<le> 2 * W + 5 \<Longrightarrow> \<bar>high\<bar> \<le> 2 * W + 5 \<Longrightarrow>
         \<exists>b. search n g k low high best = Some b \<and>
           (b = best \<or> (\<exists>p sol. b = Some sol \<and> buildClosure g p = Some sol \<and> exact_at (s + 36) g p))"
proof (induction n arbitrary: low high best)
  case 0
  then show ?case by simp
next
  case (Suc n)
  let ?p = "(low + high) / 2"
  have e1: "s + 36 - n = Suc (s + 36 - Suc n)" using Suc.prems(1) by simp
  have "on_grid (2 * 2 ^ (s + 36 - Suc n)) ?p"
    by (rule on_grid_half, rule on_grid_add) (use Suc.prems in simp_all)
  then have pg: "on_grid (2 ^ (s + 36 - n)) ?p" unfolding e1 by simp
  have "\<bar>low + high\<bar> \<le> 2 * (2 * W + 5)" using Suc.prems(4,5) by (simp add: abs_le_iff)
  then have pb: "\<bar>?p\<bar> \<le> 2 * W + 5" by simp
  have lg: "on_grid (2 ^ (s + 36 - n)) low" by (rule on_grid_pow_mono[OF Suc.prems(2)]) simp
  have hg: "on_grid (2 ^ (s + 36 - n)) high" by (rule on_grid_pow_mono[OF Suc.prems(3)]) simp
  have n: "n \<le> 36" using Suc.prems(1) by simp
  have ex: "exact_at (s + 36) g ?p"
    by (rule exact_at_penalty[OF es ne on_grid_pow_mono[OF pg] pb]) simp
  obtain cand where c: "buildClosure g ?p = Some cand" using buildClosure_total by blast
  let ?best' = "if improves k cand best then Some cand else best"
  have r: "search (Suc n) g k low high best =
     (if int (csize cand) > k then search n g k ?p high ?best' else search n g k low ?p ?best')"
    using c by (simp add: Let_def)
  have b': "?best' = best \<or> (\<exists>p sol. ?best' = Some sol \<and> buildClosure g p = Some sol \<and> exact_at (s + 36) g p)"
    using c ex by auto
  show ?case
  proof (cases "int (csize cand) > k")
    case True
    from Suc.IH[OF n pg hg pb Suc.prems(5), of ?best'] obtain b where
      "search n g k ?p high ?best' = Some b"
      "b = ?best' \<or> (\<exists>p sol. b = Some sol \<and> buildClosure g p = Some sol \<and> exact_at (s + 36) g p)" by blast
    then show ?thesis using r True b' by auto
  next
    case False
    from Suc.IH[OF n lg pg Suc.prems(4) pb, of ?best'] obtain b where
      "search n g k low ?p ?best' = Some b"
      "b = ?best' \<or> (\<exists>p sol. b = Some sol \<and> buildClosure g p = Some sol \<and> exact_at (s + 36) g p)" by blast
    then show ?thesis using r False b' by auto
  qed
qed

lemma penaltySearch_exact:
  assumes es: "exact_search s W g" and ne: "chunks g \<noteq> []"
  shows "\<exists>final p. penaltySearch g k = Some final \<and> buildClosure g p = Some final \<and>
           exact_at (s + 36) g p"
proof -
  define weights where "weights = map weight0 (map snd (chunks g))"
  define minW where "minW = fold min weights (hd weights)"
  define maxW where "maxW = fold max weights (hd weights)"
  define low where "low = minW - \<bar>minW\<bar> - 5"
  define high where "high = maxW + \<bar>maxW\<bar> + 5"
  have ps: "penaltySearch g k =
      Option.bind (search 36 g k low high None)
        (\<lambda>best. case best of None \<Rightarrow> maximumWeightClosure g | Some b \<Rightarrow> Some b)"
    unfolding penaltySearch_def weights_def low_def high_def minW_def maxW_def Let_def by simp
  have wne: "weights \<noteq> []" using ne unfolding weights_def by simp
  then have hd: "hd weights \<in> set weights" by simp
  have mn: "minW \<in> set weights" unfolding minW_def using fold_min_in[of weights "hd weights"] hd by auto
  have mx: "maxW \<in> set weights" unfolding maxW_def using fold_max_in[of weights "hd weights"] hd by auto
  have wg: "\<And>w. w \<in> set weights \<Longrightarrow> on_grid (2 ^ s) w \<and> \<bar>w\<bar> \<le> W"
    using es unfolding exact_search_def weights_def by auto
  have lg: "on_grid (2 ^ (s + 36 - 36)) low"
    unfolding low_def using wg[OF mn] by (simp add: on_grid_diff on_grid_abs on_grid_5)
  have hg: "on_grid (2 ^ (s + 36 - 36)) high"
    unfolding high_def using wg[OF mx] by (simp add: on_grid_add on_grid_abs on_grid_5)
  have lb: "\<bar>low\<bar> \<le> 2 * W + 5" unfolding low_def using wg[OF mn]
    by (auto simp: abs_if split: if_splits)
  have hb: "\<bar>high\<bar> \<le> 2 * W + 5" unfolding high_def using wg[OF mx]
    by (auto simp: abs_if split: if_splits)
  from search_exact[OF es ne _ lg hg lb hb, of k None] obtain b where
    b: "search 36 g k low high None = Some b"
    "b = None \<or> (\<exists>p sol. b = Some sol \<and> buildClosure g p = Some sol \<and> exact_at (s + 36) g p)" by auto
  from b(2) show ?thesis
  proof
    assume "b = None"
    then have "penaltySearch g k = buildClosure g 0"
      unfolding ps b(1) maximumWeightClosure_def by simp
    moreover have "exact_at (s + 36) g 0"
      by (rule exact_at_penalty[OF es ne on_grid_0]) (use exact_search_W[OF es ne] in simp)
    ultimately show ?thesis using buildClosure_total[of g 0] by auto
  next
    assume "\<exists>p sol. b = Some sol \<and> buildClosure g p = Some sol \<and> exact_at (s + 36) g p"
    then obtain p sol where "b = Some sol" "buildClosure g p = Some sol" "exact_at (s + 36) g p" by blast
    then show ?thesis unfolding ps b(1) by auto
  qed
qed

section \<open>Example A\<close>

text \<open>
  Claim C6. On the two-chunk graph with chunk A of weight 10, chunk B of weight -3 and the
  single edge A -> B, \<open>maximumWeightClosure\<close> returns the closure {A, B} with
  \<open>totalWeight\<close> 7.
\<close>

theorem exampleA_maximumWeightClosure:
  "maximumWeightClosure exampleA =
     Some \<lparr>closure = [''A'', ''B''], totalWeight = 7, csize = 2, penalty = Some 0\<rparr>"
  by code_simp

lemma wf_exampleA: "wf_graph exampleA"
  by (simp add: wf_graph_def exampleA_def mkChunk_def)

section \<open>Size bound\<close>

lemma maximumWeightClosure_empty:
  "chunks g = [] \<Longrightarrow>
   maximumWeightClosure g = Some \<lparr>closure = [], totalWeight = 0, csize = 0, penalty = Some 0\<rparr>"
  unfolding maximumWeightClosure_def by (rule buildClosure_empty) (simp add: chunksOf_def)

text \<open>
  Claim C2, as the code has it. For every graph and every integer k > 0,
  \<open>solveClosureBySize\<close> returns a solution of size at most k. For every k greater than or
  equal to the number of chunks of a graph with at least one chunk, it returns what
  \<open>maximumWeightClosure\<close> returns. On the graph without chunks it returns the empty solution
  without a penalty, where \<open>maximumWeightClosure\<close> returns the empty solution with penalty 0.
\<close>

theorem size_bound:
  "(0 < k \<longrightarrow> (\<exists>sol. solveClosureBySize g k = Some sol \<and> int (csize sol) \<le> k)) \<and>
   (chunks g \<noteq> [] \<and> int (length (chunks g)) \<le> k \<longrightarrow>
      solveClosureBySize g k = maximumWeightClosure g) \<and>
   (chunks g = [] \<longrightarrow>
      solveClosureBySize g k = Some \<lparr>closure = [], totalWeight = 0, csize = 0, penalty = None\<rparr> \<and>
      maximumWeightClosure g = Some \<lparr>closure = [], totalWeight = 0, csize = 0, penalty = Some 0\<rparr>)"
proof (intro conjI impI)
  assume k: "0 < k"
  obtain sol where s: "solveClosureBySize g k = Some sol" using solve_total by blast
  then show "\<exists>sol. solveClosureBySize g k = Some sol \<and> int (csize sol) \<le> k"
    using solve_size[OF k s] by blast
next
  assume a: "chunks g \<noteq> [] \<and> int (length (chunks g)) \<le> k"
  then have "0 < k" by (cases "chunks g") auto
  then show "solveClosureBySize g k = maximumWeightClosure g" using solve_all a by blast
next
  assume "chunks g = []"
  then show "solveClosureBySize g k = Some \<lparr>closure = [], totalWeight = 0, csize = 0, penalty = None\<rparr>"
    using solve_empty by blast
next
  assume "chunks g = []"
  then show "maximumWeightClosure g = Some \<lparr>closure = [], totalWeight = 0, csize = 0, penalty = Some 0\<rparr>"
    by (rule maximumWeightClosure_empty)
qed

theorem size_bound_witness:
  "(0::int) < 2 \<and> chunks exampleA \<noteq> [] \<and> int (length (chunks exampleA)) \<le> 2 \<and>
   (\<exists>sol. solveClosureBySize exampleA 2 = Some sol \<and> int (csize sol) \<le> 2) \<and>
   solveClosureBySize exampleA 2 = maximumWeightClosure exampleA \<and>
   chunks emptyGraph = [] \<and>
   solveClosureBySize emptyGraph 1 = Some \<lparr>closure = [], totalWeight = 0, csize = 0, penalty = None\<rparr>"
proof -
  have a: "chunks exampleA \<noteq> []" "int (length (chunks exampleA)) \<le> 2"
    by (simp_all add: exampleA_def)
  have b: "chunks emptyGraph = []" by (simp add: emptyGraph_def)
  have c: "(0::int) < 2" by simp
  show ?thesis using size_bound[of 2 exampleA] size_bound[of 1 emptyGraph] a b c by blast
qed

text \<open>The claim as stated fails on the graph without chunks: 1 is at least the number of
  chunks, and the two results differ in the penalty field.\<close>

theorem size_bound_counterexample:
  "int (length (chunks emptyGraph)) \<le> 1 \<and>
   solveClosureBySize emptyGraph 1 \<noteq> maximumWeightClosure emptyGraph"
proof -
  have b: "chunks emptyGraph = []" by (simp add: emptyGraph_def)
  show ?thesis using solve_empty[of 1 emptyGraph] maximumWeightClosure_empty[OF b] b by simp
qed

section \<open>Example B\<close>

text \<open>The 36 penalties that the search of \<open>solveClosureBySize\<close> visits on Example B
  with k = 1, and the candidate that the Closure Builder returns at each.\<close>

lemma exampleB_candidates_1:
  "map (buildClosure exampleB)
     [10,
      5 / 2,
      25 / 4,
      35 / 8,
      85 / 16,
      185 / 32,
      355 / 64,
      695 / 128,
      1375 / 256] =
     [Some \<lparr>closure = [], totalWeight = 0, csize = 0, penalty = Some (10)\<rparr>,
      Some \<lparr>closure = [''A'', ''B'', ''C''], totalWeight = 16, csize = 3, penalty = Some (5 / 2)\<rparr>,
      Some \<lparr>closure = [], totalWeight = 0, csize = 0, penalty = Some (25 / 4)\<rparr>,
      Some \<lparr>closure = [''A'', ''B'', ''C''], totalWeight = 16, csize = 3, penalty = Some (35 / 8)\<rparr>,
      Some \<lparr>closure = [''A'', ''B'', ''C''], totalWeight = 16, csize = 3, penalty = Some (85 / 16)\<rparr>,
      Some \<lparr>closure = [], totalWeight = 0, csize = 0, penalty = Some (185 / 32)\<rparr>,
      Some \<lparr>closure = [], totalWeight = 0, csize = 0, penalty = Some (355 / 64)\<rparr>,
      Some \<lparr>closure = [], totalWeight = 0, csize = 0, penalty = Some (695 / 128)\<rparr>,
      Some \<lparr>closure = [], totalWeight = 0, csize = 0, penalty = Some (1375 / 256)\<rparr>]"
  by code_simp

lemma exampleB_candidates_2:
  "map (buildClosure exampleB)
     [2735 / 512,
      5455 / 1024,
      10925 / 2048,
      21835 / 4096,
      43685 / 8192,
      87385 / 16384,
      174755 / 32768,
      349525 / 65536,
      699065 / 131072] =
     [Some \<lparr>closure = [], totalWeight = 0, csize = 0, penalty = Some (2735 / 512)\<rparr>,
      Some \<lparr>closure = [''A'', ''B'', ''C''], totalWeight = 16, csize = 3, penalty = Some (5455 / 1024)\<rparr>,
      Some \<lparr>closure = [], totalWeight = 0, csize = 0, penalty = Some (10925 / 2048)\<rparr>,
      Some \<lparr>closure = [''A'', ''B'', ''C''], totalWeight = 16, csize = 3, penalty = Some (21835 / 4096)\<rparr>,
      Some \<lparr>closure = [''A'', ''B'', ''C''], totalWeight = 16, csize = 3, penalty = Some (43685 / 8192)\<rparr>,
      Some \<lparr>closure = [], totalWeight = 0, csize = 0, penalty = Some (87385 / 16384)\<rparr>,
      Some \<lparr>closure = [''A'', ''B'', ''C''], totalWeight = 16, csize = 3, penalty = Some (174755 / 32768)\<rparr>,
      Some \<lparr>closure = [''A'', ''B'', ''C''], totalWeight = 16, csize = 3, penalty = Some (349525 / 65536)\<rparr>,
      Some \<lparr>closure = [], totalWeight = 0, csize = 0, penalty = Some (699065 / 131072)\<rparr>]"
  by code_simp

lemma exampleB_candidates_3:
  "map (buildClosure exampleB)
     [1398115 / 262144,
      2796215 / 524288,
      5592415 / 1048576,
      11184815 / 2097152,
      22369615 / 4194304,
      44739245 / 8388608,
      89478475 / 16777216,
      178956965 / 33554432,
      357913945 / 67108864] =
     [Some \<lparr>closure = [], totalWeight = 0, csize = 0, penalty = Some (1398115 / 262144)\<rparr>,
      Some \<lparr>closure = [], totalWeight = 0, csize = 0, penalty = Some (2796215 / 524288)\<rparr>,
      Some \<lparr>closure = [], totalWeight = 0, csize = 0, penalty = Some (5592415 / 1048576)\<rparr>,
      Some \<lparr>closure = [], totalWeight = 0, csize = 0, penalty = Some (11184815 / 2097152)\<rparr>,
      Some \<lparr>closure = [''A'', ''B'', ''C''], totalWeight = 16, csize = 3, penalty = Some (22369615 / 4194304)\<rparr>,
      Some \<lparr>closure = [], totalWeight = 0, csize = 0, penalty = Some (44739245 / 8388608)\<rparr>,
      Some \<lparr>closure = [''A'', ''B'', ''C''], totalWeight = 16, csize = 3, penalty = Some (89478475 / 16777216)\<rparr>,
      Some \<lparr>closure = [''A'', ''B'', ''C''], totalWeight = 16, csize = 3, penalty = Some (178956965 / 33554432)\<rparr>,
      Some \<lparr>closure = [], totalWeight = 0, csize = 0, penalty = Some (357913945 / 67108864)\<rparr>]"
  by code_simp

lemma exampleB_candidates_4:
  "map (buildClosure exampleB)
     [715827875 / 134217728,
      1431655765 / 268435456,
      2863311545 / 536870912,
      5726623075 / 1073741824,
      11453246135 / 2147483648,
      22906492255 / 4294967296,
      45812984495 / 8589934592,
      91625968975 / 17179869184,
      183251937965 / 34359738368] =
     [Some \<lparr>closure = [''A'', ''B'', ''C''], totalWeight = 16, csize = 3, penalty = Some (715827875 / 134217728)\<rparr>,
      Some \<lparr>closure = [''A'', ''B'', ''C''], totalWeight = 16, csize = 3, penalty = Some (1431655765 / 268435456)\<rparr>,
      Some \<lparr>closure = [], totalWeight = 0, csize = 0, penalty = Some (2863311545 / 536870912)\<rparr>,
      Some \<lparr>closure = [], totalWeight = 0, csize = 0, penalty = Some (5726623075 / 1073741824)\<rparr>,
      Some \<lparr>closure = [], totalWeight = 0, csize = 0, penalty = Some (11453246135 / 2147483648)\<rparr>,
      Some \<lparr>closure = [], totalWeight = 0, csize = 0, penalty = Some (22906492255 / 4294967296)\<rparr>,
      Some \<lparr>closure = [], totalWeight = 0, csize = 0, penalty = Some (45812984495 / 8589934592)\<rparr>,
      Some \<lparr>closure = [''A'', ''B'', ''C''], totalWeight = 16, csize = 3, penalty = Some (91625968975 / 17179869184)\<rparr>,
      Some \<lparr>closure = [], totalWeight = 0, csize = 0, penalty = Some (183251937965 / 34359738368)\<rparr>]"
  by code_simp

lemma search_unfold:
  "0 < n \<Longrightarrow> search n g k low high best =
     Option.bind (buildClosure g ((low + high) / 2))
       (\<lambda>candidate.
          if int (csize candidate) > k
          then search (n - 1) g k ((low + high) / 2) high
                 (if improves k candidate best then Some candidate else best)
          else search (n - 1) g k low ((low + high) / 2)
                 (if improves k candidate best then Some candidate else best))"
  by (cases n) (simp_all add: Let_def cong: if_cong)

lemma exampleB_search:
  "search 36 exampleB 1 (- 5) 25 None =
     Some (Some \<lparr>closure = [], totalWeight = 0, csize = 0, penalty = Some 10\<rparr>)"
  using exampleB_candidates_1 exampleB_candidates_2 exampleB_candidates_3 exampleB_candidates_4
  by (simp add: search_unfold improves_def)

lemma exampleB_penaltySearch:
  "penaltySearch exampleB 1 =
     Some \<lparr>closure = [], totalWeight = 0, csize = 0, penalty = Some 10\<rparr>"
proof -
  have w: "map weight0 (map snd (chunks exampleB)) = [10, 5, 1]"
    by (simp add: exampleB_def mkChunk_def weight0_def)
  show ?thesis unfolding penaltySearch_def w Let_def using exampleB_search by simp
qed

lemma exampleB_solve:
  "solveClosureBySize exampleB 1 =
     Some \<lparr>closure = [], totalWeight = 0, csize = 0, penalty = Some 10\<rparr>"
proof -
  have c: "(0::int) < 1" "chunks exampleB \<noteq> []" "\<not> int (length (chunks exampleB)) \<le> 1"
    by (simp_all add: exampleB_def)
  show ?thesis unfolding solve_search[OF c exampleB_penaltySearch]
    by (simp add: enforceSizeLimit_def sum_weights_def)
qed

text \<open>
  Claim C4, as the code has it. On the three-chunk chain where A depends on B and B depends
  on C, with weights A = 10, B = 5, C = 1, \<open>solveClosureBySize(graph, 1)\<close> returns the empty
  closure with \<open>totalWeight\<close> 0 and \<open>size\<close> 0, found at penalty 10: every candidate of
  the penalty search is the empty closure or the whole chain, and the first candidate,
  empty and at distance 1 from k, is never improved on.
\<close>

theorem exampleB_solveClosureBySize:
  "solveClosureBySize exampleB 1 =
     Some \<lparr>closure = [], totalWeight = 0, csize = 0, penalty = Some 10\<rparr>"
  by (rule exampleB_solve)

text \<open>The claim as stated fails: the result is not the closure {C} of weight 1 and size 1.\<close>

theorem exampleB_counterexample:
  "map_option closure (solveClosureBySize exampleB 1) \<noteq> Some [''C''] \<and>
   map_option totalWeight (solveClosureBySize exampleB 1) \<noteq> Some 1 \<and>
   map_option csize (solveClosureBySize exampleB 1) \<noteq> Some 1"
  by (simp add: exampleB_solve)

section \<open>The closure of a graph without edges\<close>

lemma zeroGraph_maximumWeightClosure:
  "maximumWeightClosure zeroGraph =
     Some \<lparr>closure = [], totalWeight = 0, csize = 0, penalty = Some 0\<rparr>"
  by code_simp

text \<open>
  Claim C3, as the code has it. For every graph with an empty edge list, the closure
  returned by \<open>maximumWeightClosure\<close> lists, in the enumeration order of the chunk mapping,
  exactly the ids of the chunks whose weight is greater than the number 1e-9 of the source (a
  missing weight counts as 0): a capacity of at most 1e-9 is treated as zero, so a chunk of
  weight between 0 and 1e-9 is not reached from the source. Without edges the engine never
  adds or subtracts capacities, so this holds of every finite weight.
\<close>

theorem no_edges_closure:
  assumes "edges g = []"
  shows "map_option closure (maximumWeightClosure g) =
           Some (map chunk_id (filter (\<lambda>c. eps < weight0 c) (map snd (chunks g))))"
  unfolding maximumWeightClosure_def buildClosure_no_edges[OF assms] chunksOf_def by simp

theorem no_edges_closure_witness:
  "edges rimGraph = [] \<and>
   map_option closure (maximumWeightClosure rimGraph) = Some [''B'', ''E'']"
proof -
  have e: "edges rimGraph = []" by (simp add: rimGraph_def)
  show ?thesis using no_edges_closure[OF e] e
    by (simp add: rimGraph_def mkChunk_def weight0_def eps_def)
qed

text \<open>The claim as stated fails on a single chunk of weight 0: its weight is greater than or
  equal to 0, and the closure is empty.\<close>

theorem no_edges_closure_counterexample:
  "edges zeroGraph = [] \<and>
   chunks zeroGraph = [(''A'', \<lparr>chunk_id = ''A'', weight = Some 0\<rparr>)] \<and>
   weightOf zeroGraph ''A'' \<ge> 0 \<and>
   map_option closure (maximumWeightClosure zeroGraph) = Some [] \<and>
   ''A'' \<notin> set ([] :: ChunkId list)"
  using zeroGraph_maximumWeightClosure
  by (simp add: zeroGraph_def mkChunk_def weightOf_def weight0_def)

section \<open>The weight of the unconstrained closure\<close>

lemma wf_tinyGraph: "wf_graph tinyGraph"
  by (simp add: wf_graph_def tinyGraph_def mkChunk_def)

lemma tinyGraph_maximumWeightClosure:
  "maximumWeightClosure tinyGraph =
     Some \<lparr>closure = [''A'', ''B'', ''C''], totalWeight = - (165 / 549755813888), csize = 3,
           penalty = Some 0\<rparr>"
  by code_simp

lemma swapGraph_maximumWeightClosure:
  "maximumWeightClosure swapGraph =
     Some \<lparr>closure = [''B''], totalWeight = - 7, csize = 1, penalty = Some 0\<rparr>"
  by code_simp

lemma exact_tinyGraph: "exact_at 40 tinyGraph 0"
proof -
  have "on_grid (2 ^ 40) (825 / 549755813888)" by (rule on_grid_intI[of _ _ 1650]) simp_all
  moreover have "on_grid (2 ^ 40) (- (495 / 549755813888))"
    by (rule on_grid_intI[of _ _ "- 990"]) simp_all
  ultimately show ?thesis using on_grid_0
    by (simp add: exact_at_def fixed_def tinyGraph_def mkChunk_def weight0_def INF_of_def)
qed

lemma wf_exampleB: "wf_graph exampleB"
  by (simp add: wf_graph_def exampleB_def mkChunk_def)

lemma exampleB_maximumWeightClosure:
  "maximumWeightClosure exampleB =
     Some \<lparr>closure = [''A'', ''B'', ''C''], totalWeight = 16, csize = 3, penalty = Some 0\<rparr>"
  by code_simp

lemma exact_exampleB: "exact_at 0 exampleB 0"
proof -
  have "on_grid (2 ^ 0) (of_int k)" for k using on_grid_of_int[of "2 ^ 0" k] by simp
  from this[of 10] this[of 5] this[of 1] show ?thesis using on_grid_0
    by (simp add: exact_at_def fixed_def exampleB_def mkChunk_def weight0_def INF_of_def)
qed

text \<open>
  Claim C9, as the code has it. Take a graph in which every chunk is stored under its own
  id, whose weights are multiples of 2^-s of absolute value at most 2^(53 - s), the sum of
  the absolute values plus 1 being at most 2^(52 - s) (\<open>exact_at\<close>: the engine then computes
  without rounding). The \<open>totalWeight\<close> that \<open>maximumWeightClosure\<close> returns is at least
  -2 * (number of chunks + number of edges) * 1e-9: the engine treats every residual capacity
  of at most 1e-9 as zero, so each edge slot that leaves the closure in the final residual
  network can hide up to 1e-9 of weight. If s is at most 29, so that no positive capacity is
  below the threshold, the \<open>totalWeight\<close> is at least 0, as the claim says.
\<close>

theorem total_weight_bound:
  assumes "wf_graph g" and "exact_at s g 0" and "maximumWeightClosure g = Some sol"
  shows "- (eps * of_nat (2 * (length (chunks g) + length (edges g)))) \<le> totalWeight sol \<and>
         (s \<le> 29 \<longrightarrow> 0 \<le> totalWeight sol)"
proof (intro conjI impI)
  have b: "buildClosure g 0 = Some sol" using assms(3) unfolding maximumWeightClosure_def .
  show "- (eps * of_nat (2 * (length (chunks g) + length (edges g)))) \<le> totalWeight sol"
    by (rule buildClosure_weight[OF assms(1) b])
  assume "s \<le> 29"
  then have "coarse (2 ^ s) g 0" by (rule exact_at_coarse[OF assms(2)])
  then show "0 \<le> totalWeight sol" using buildClosure_weight_coarse[OF assms(1) _ b] by blast
qed

theorem total_weight_bound_witness:
  "wf_graph exampleB \<and> exact_at 0 exampleB 0 \<and>
   maximumWeightClosure exampleB =
     Some \<lparr>closure = [''A'', ''B'', ''C''], totalWeight = 16, csize = 3, penalty = Some 0\<rparr> \<and>
   - (eps * of_nat (2 * (length (chunks exampleB) + length (edges exampleB)))) \<le> 16 \<and>
   (0::nat) \<le> 29 \<and> (0::rat) \<le> 16 \<and>
   wf_graph tinyGraph \<and> exact_at 40 tinyGraph 0 \<and>
   maximumWeightClosure tinyGraph =
     Some \<lparr>closure = [''A'', ''B'', ''C''], totalWeight = - (165 / 549755813888), csize = 3,
           penalty = Some 0\<rparr> \<and>
   - (eps * of_nat (2 * (length (chunks tinyGraph) + length (edges tinyGraph))))
     \<le> - (165 / 549755813888)"
  using total_weight_bound[OF wf_exampleB exact_exampleB exampleB_maximumWeightClosure]
    total_weight_bound[OF wf_tinyGraph exact_tinyGraph tinyGraph_maximumWeightClosure]
    wf_exampleB exact_exampleB exampleB_maximumWeightClosure
    wf_tinyGraph exact_tinyGraph tinyGraph_maximumWeightClosure
  by simp

text \<open>The claim as stated fails at weights near the threshold: the sink edges of B and C
  (capacity 990 * 2^-40, below 1e-9) carry no flow, A (1650 * 2^-40) stays reachable, and the
  closure {A, B, C} weighs -330 * 2^-40. It also fails where chunks are not stored under
  their id: the closure holds the id B of the chunk of weight 5, and \<open>totalWeight\<close> adds the
  weight -7 of the chunk stored under the key B.\<close>

theorem total_weight_counterexample:
  "map_option totalWeight (maximumWeightClosure tinyGraph) = Some (- (165 / 549755813888)) \<and>
   - (165 / 549755813888) < (0::rat) \<and>
   map_option totalWeight (maximumWeightClosure swapGraph) = Some (- 7) \<and> - 7 < (0::rat)"
  using tinyGraph_maximumWeightClosure swapGraph_maximumWeightClosure by simp

section \<open>Raising the penalty\<close>

lemma thresholdGraph_low:
  "buildClosure thresholdGraph (- (55 / 274877906944)) =
     Some \<lparr>closure = [], totalWeight = 0, csize = 0, penalty = Some (- (55 / 274877906944))\<rparr>"
  by code_simp

lemma thresholdGraph_high:
  "buildClosure thresholdGraph (165 / 549755813888) =
     Some \<lparr>closure = [''C'', ''E''], totalWeight = 55 / 137438953472, csize = 2, penalty = Some (165 / 549755813888)\<rparr>"
  by code_simp

lemma exampleA_at_0:
  "buildClosure exampleA 0 =
     Some \<lparr>closure = [''A'', ''B''], totalWeight = 7, csize = 2, penalty = Some 0\<rparr>"
  by code_simp

lemma exampleA_at_8:
  "buildClosure exampleA 8 =
     Some \<lparr>closure = [], totalWeight = 0, csize = 0, penalty = Some 8\<rparr>"
  by code_simp

lemma exact_exampleA: "exact_at 0 exampleA 0" "exact_at 0 exampleA 8"
proof -
  have "on_grid (2 ^ 0) (of_int k)" for k using on_grid_of_int[of "2 ^ 0" k] by simp
  from this[of 10] this[of "- 3"] this[of 8] this[of 0]
  show "exact_at 0 exampleA 0" "exact_at 0 exampleA 8"
    by (simp_all add: exact_at_def fixed_def exampleA_def mkChunk_def weight0_def INF_of_def)
qed

text \<open>
  Claim C5, as the code has it. Take penalties p1 <= p2 and a graph that either has no
  dependency edges, or is such that at each of the two penalties the weights and the penalty
  are multiples of 2^-s with s at most 29, of absolute value at most 2^(53 - s), the sum of
  the absolute values of weight - penalty plus 1 being at most 2^(52 - s) (\<open>exact_at\<close>: the
  engine then computes without rounding, and no positive capacity is below its threshold
  1e-9). Then every id of the closure that the Closure Builder returns at p2 is in the
  closure it returns at p1, and the closure at p2 is no larger.
\<close>

theorem penalty_monotone:
  assumes "edges g = [] \<or> exact_at s1 g p1 \<and> exact_at s2 g p2 \<and> s1 \<le> 29 \<and> s2 \<le> 29"
    and "p1 \<le> p2"
    and "buildClosure g p1 = Some sol1" and "buildClosure g p2 = Some sol2"
  shows "set (closure sol2) \<subseteq> set (closure sol1) \<and> csize sol2 \<le> csize sol1"
proof (cases "edges g = []")
  case True
  let ?f = "\<lambda>p. filter (\<lambda>c. eps < weight0 c - p) (chunksOf g)"
  have sub: "?f p2 = filter (\<lambda>c. eps < weight0 c - p2) (?f p1)"
    using assms(2) by (auto intro: filter_cong)
  then have "set (?f p2) \<subseteq> set (?f p1)" by (metis filter_is_subset)
  then have 1: "set (map chunk_id (?f p2)) \<subseteq> set (map chunk_id (?f p1))"
    unfolding set_map by (rule image_mono)
  have 2: "length (?f p2) \<le> length (?f p1)" by (subst sub) (rule length_filter_le)
  have c1: "closure sol1 = map chunk_id (?f p1)" "csize sol1 = length (?f p1)"
    using assms(3) unfolding buildClosure_no_edges[OF True] by auto
  have c2: "closure sol2 = map chunk_id (?f p2)" "csize sol2 = length (?f p2)"
    using assms(4) unfolding buildClosure_no_edges[OF True] by auto
  show ?thesis unfolding c1 c2 using 1 2 by simp
next
  case False
  then have "coarse (2 ^ s1) g p1" "coarse (2 ^ s2) g p2"
    using assms(1) exact_at_coarse by blast+
  from buildClosure_monotone[OF this assms(2)] show ?thesis using assms(3,4) by auto
qed

theorem penalty_monotone_witness:
  "(edges exampleA = [] \<or>
      exact_at 0 exampleA 0 \<and> exact_at 0 exampleA 8 \<and> (0::nat) \<le> 29 \<and> (0::nat) \<le> 29) \<and>
   (0::rat) \<le> 8 \<and>
   buildClosure exampleA 0 =
     Some \<lparr>closure = [''A'', ''B''], totalWeight = 7, csize = 2, penalty = Some 0\<rparr> \<and>
   buildClosure exampleA 8 =
     Some \<lparr>closure = [], totalWeight = 0, csize = 0, penalty = Some 8\<rparr> \<and>
   set ([] :: ChunkId list) \<subseteq> set [''A'', ''B''] \<and> (0::nat) \<le> 2"
proof -
  have h: "edges exampleA = [] \<or>
      exact_at 0 exampleA 0 \<and> exact_at 0 exampleA 8 \<and> (0::nat) \<le> 29 \<and> (0::nat) \<le> 29"
    using exact_exampleA by simp
  have l: "(0::rat) \<le> 8" by simp
  show ?thesis using penalty_monotone[OF h l exampleA_at_0 exampleA_at_8] h l
      exampleA_at_0 exampleA_at_8 by simp
qed

text \<open>The claim as stated fails on a graph with edges: raising the penalty from
  -220 * 2^-40 to 330 * 2^-40 turns the empty closure into {C, E}.\<close>

theorem penalty_monotone_counterexample:
  "(- (55 / 274877906944) :: rat) \<le> 165 / 549755813888 \<and>
   map_option csize (buildClosure thresholdGraph (- (55 / 274877906944))) = Some 0 \<and>
   map_option csize (buildClosure thresholdGraph (165 / 549755813888)) = Some 2 \<and>
   (0::nat) < 2"
  using thresholdGraph_low thresholdGraph_high by simp

section \<open>Two chunks of equal weight\<close>

text \<open>The 36 penalties that the search of \<open>solveClosureBySize\<close> visits on two chunks of
  weight 10, A depending on B, with k = 1, and the candidate at each. The candidate kept is
  the first of size 2, at penalty 5/2; the Size Enforcer then removes A.\<close>

lemma twinGraph_candidates_1:
  "map (buildClosure twinGraph)
     [10,
      5 / 2,
      25 / 4,
      65 / 8,
      145 / 16,
      305 / 32,
      625 / 64,
      1265 / 128,
      2545 / 256] =
     [Some \<lparr>closure = [], totalWeight = 0, csize = 0, penalty = Some 10\<rparr>,
      Some \<lparr>closure = [''A'', ''B''], totalWeight = 20, csize = 2, penalty = Some (5 / 2)\<rparr>,
      Some \<lparr>closure = [''A'', ''B''], totalWeight = 20, csize = 2, penalty = Some (25 / 4)\<rparr>,
      Some \<lparr>closure = [''A'', ''B''], totalWeight = 20, csize = 2, penalty = Some (65 / 8)\<rparr>,
      Some \<lparr>closure = [''A'', ''B''], totalWeight = 20, csize = 2, penalty = Some (145 / 16)\<rparr>,
      Some \<lparr>closure = [''A'', ''B''], totalWeight = 20, csize = 2, penalty = Some (305 / 32)\<rparr>,
      Some \<lparr>closure = [''A'', ''B''], totalWeight = 20, csize = 2, penalty = Some (625 / 64)\<rparr>,
      Some \<lparr>closure = [''A'', ''B''], totalWeight = 20, csize = 2, penalty = Some (1265 / 128)\<rparr>,
      Some \<lparr>closure = [''A'', ''B''], totalWeight = 20, csize = 2, penalty = Some (2545 / 256)\<rparr>]"
  by code_simp

lemma twinGraph_candidates_2:
  "map (buildClosure twinGraph)
     [5105 / 512,
      10225 / 1024,
      20465 / 2048,
      40945 / 4096,
      81905 / 8192,
      163825 / 16384,
      327665 / 32768,
      655345 / 65536,
      1310705 / 131072] =
     [Some \<lparr>closure = [''A'', ''B''], totalWeight = 20, csize = 2, penalty = Some (5105 / 512)\<rparr>,
      Some \<lparr>closure = [''A'', ''B''], totalWeight = 20, csize = 2, penalty = Some (10225 / 1024)\<rparr>,
      Some \<lparr>closure = [''A'', ''B''], totalWeight = 20, csize = 2, penalty = Some (20465 / 2048)\<rparr>,
      Some \<lparr>closure = [''A'', ''B''], totalWeight = 20, csize = 2, penalty = Some (40945 / 4096)\<rparr>,
      Some \<lparr>closure = [''A'', ''B''], totalWeight = 20, csize = 2, penalty = Some (81905 / 8192)\<rparr>,
      Some \<lparr>closure = [''A'', ''B''], totalWeight = 20, csize = 2, penalty = Some (163825 / 16384)\<rparr>,
      Some \<lparr>closure = [''A'', ''B''], totalWeight = 20, csize = 2, penalty = Some (327665 / 32768)\<rparr>,
      Some \<lparr>closure = [''A'', ''B''], totalWeight = 20, csize = 2, penalty = Some (655345 / 65536)\<rparr>,
      Some \<lparr>closure = [''A'', ''B''], totalWeight = 20, csize = 2, penalty = Some (1310705 / 131072)\<rparr>]"
  by code_simp

lemma twinGraph_candidates_3:
  "map (buildClosure twinGraph)
     [2621425 / 262144,
      5242865 / 524288,
      10485745 / 1048576,
      20971505 / 2097152,
      41943025 / 4194304,
      83886065 / 8388608,
      167772145 / 16777216,
      335544305 / 33554432,
      671088625 / 67108864] =
     [Some \<lparr>closure = [''A'', ''B''], totalWeight = 20, csize = 2, penalty = Some (2621425 / 262144)\<rparr>,
      Some \<lparr>closure = [''A'', ''B''], totalWeight = 20, csize = 2, penalty = Some (5242865 / 524288)\<rparr>,
      Some \<lparr>closure = [''A'', ''B''], totalWeight = 20, csize = 2, penalty = Some (10485745 / 1048576)\<rparr>,
      Some \<lparr>closure = [''A'', ''B''], totalWeight = 20, csize = 2, penalty = Some (20971505 / 2097152)\<rparr>,
      Some \<lparr>closure = [''A'', ''B''], totalWeight = 20, csize = 2, penalty = Some (41943025 / 4194304)\<rparr>,
      Some \<lparr>closure = [''A'', ''B''], totalWeight = 20, csize = 2, penalty = Some (83886065 / 8388608)\<rparr>,
      Some \<lparr>closure = [''A'', ''B''], totalWeight = 20, csize = 2, penalty = Some (167772145 / 16777216)\<rparr>,
      Some \<lparr>closure = [''A'', ''B''], totalWeight = 20, csize = 2, penalty = Some (335544305 / 33554432)\<rparr>,
      Some \<lparr>closure = [''A'', ''B''], totalWeight = 20, csize = 2, penalty = Some (671088625 / 67108864)\<rparr>]"
  by code_simp

lemma twinGraph_candidates_4:
  "map (buildClosure twinGraph)
     [1342177265 / 134217728,
      2684354545 / 268435456,
      5368709105 / 536870912,
      10737418225 / 1073741824,
      21474836465 / 2147483648,
      42949672945 / 4294967296,
      85899345905 / 8589934592,
      171798691825 / 17179869184,
      343597383635 / 34359738368] =
     [Some \<lparr>closure = [''A'', ''B''], totalWeight = 20, csize = 2, penalty = Some (1342177265 / 134217728)\<rparr>,
      Some \<lparr>closure = [''A'', ''B''], totalWeight = 20, csize = 2, penalty = Some (2684354545 / 268435456)\<rparr>,
      Some \<lparr>closure = [''A'', ''B''], totalWeight = 20, csize = 2, penalty = Some (5368709105 / 536870912)\<rparr>,
      Some \<lparr>closure = [''A'', ''B''], totalWeight = 20, csize = 2, penalty = Some (10737418225 / 1073741824)\<rparr>,
      Some \<lparr>closure = [''A'', ''B''], totalWeight = 20, csize = 2, penalty = Some (21474836465 / 2147483648)\<rparr>,
      Some \<lparr>closure = [''A'', ''B''], totalWeight = 20, csize = 2, penalty = Some (42949672945 / 4294967296)\<rparr>,
      Some \<lparr>closure = [''A'', ''B''], totalWeight = 20, csize = 2, penalty = Some (85899345905 / 8589934592)\<rparr>,
      Some \<lparr>closure = [], totalWeight = 0, csize = 0, penalty = Some (171798691825 / 17179869184)\<rparr>,
      Some \<lparr>closure = [''A'', ''B''], totalWeight = 20, csize = 2, penalty = Some (343597383635 / 34359738368)\<rparr>]"
  by code_simp

lemma twinGraph_search:
  "search 36 twinGraph 1 (- 5) 25 None =
     Some (Some \<lparr>closure = [''A'', ''B''], totalWeight = 20, csize = 2, penalty = Some (5 / 2)\<rparr>)"
  using twinGraph_candidates_1 twinGraph_candidates_2 twinGraph_candidates_3 twinGraph_candidates_4
  by (simp add: search_unfold improves_def)

lemma twinGraph_penaltySearch:
  "penaltySearch twinGraph 1 =
     Some \<lparr>closure = [''A'', ''B''], totalWeight = 20, csize = 2, penalty = Some (5 / 2)\<rparr>"
proof -
  have w: "map weight0 (map snd (chunks twinGraph)) = [10, 10]"
    by (simp add: twinGraph_def mkChunk_def weight0_def)
  show ?thesis unfolding penaltySearch_def w Let_def using twinGraph_search by simp
qed

lemma twinGraph_trimmed: "trimmed twinGraph [''A'', ''B''] 1 = [''B'']"
  by code_simp

lemma twinGraph_enforceSizeLimit: "enforceSizeLimit twinGraph [''A'', ''B''] 1 = [''B'']"
  unfolding enforceSizeLimit_alt fallbackTaken_def twinGraph_trimmed by simp

lemma twinGraph_solve:
  "solveClosureBySize twinGraph 1 =
     Some \<lparr>closure = [''B''], totalWeight = 10, csize = 1, penalty = Some (5 / 2)\<rparr>"
proof -
  have c: "(0::int) < 1" "chunks twinGraph \<noteq> []" "\<not> int (length (chunks twinGraph)) \<le> 1"
    by (simp_all add: twinGraph_def)
  have w: "sum_weights twinGraph [''B''] = 10" by code_simp
  show ?thesis unfolding solve_search[OF c twinGraph_penaltySearch]
    by (simp add: twinGraph_enforceSizeLimit w)
qed




section \<open>Closedness\<close>







section \<open>Edges to ids that no chunk has\<close>

lemma keyGraph_with_edge:
  "maximumWeightClosure keyGraph =
     Some \<lparr>closure = [''A'', ''B''], totalWeight = 0, csize = 2, penalty = Some 0\<rparr>"
  by code_simp

lemma keyGraph_without_edge:
  "maximumWeightClosure (keyGraph\<lparr>edges := [] @ []\<rparr>) =
     Some \<lparr>closure = [''A''], totalWeight = 0, csize = 1, penalty = Some 0\<rparr>"
  by code_simp

text \<open>
  Claim C7, as the code has it. A dependency edge whose \<open>from\<close> or \<open>to\<close> is the id of no
  chunk contributes nothing: on the graph with that edge removed, each entry point does what
  it does on the graph itself.
\<close>

theorem graceful_degradation:
  assumes "edges g = xs @ e # ys" and "e_from e \<notin> idsOf g \<or> e_to e \<notin> idsOf g"
  shows "maximumWeightClosure (g\<lparr>edges := xs @ ys\<rparr>) = maximumWeightClosure g \<and>
         solveClosureBySize (g\<lparr>edges := xs @ ys\<rparr>) k = solveClosureBySize g k"
  unfolding maximumWeightClosure_def
  using buildClosure_drop_edge[OF assms] solve_drop_edge[OF assms] by blast

theorem graceful_degradation_witness:
  "edges twinDangling = [mkEdge ''A'' ''B''] @ mkEdge ''A'' ''Z'' # [] \<and>
   e_to (mkEdge ''A'' ''Z'') \<notin> idsOf twinDangling \<and>
   maximumWeightClosure (twinDangling\<lparr>edges := [mkEdge ''A'' ''B''] @ []\<rparr>) =
     maximumWeightClosure twinDangling \<and>
   solveClosureBySize (twinDangling\<lparr>edges := [mkEdge ''A'' ''B''] @ []\<rparr>) 1 =
     solveClosureBySize twinDangling 1 \<and>
   twinDangling\<lparr>edges := [mkEdge ''A'' ''B''] @ []\<rparr> = twinGraph \<and>
   solveClosureBySize twinGraph 1 =
     Some \<lparr>closure = [''B''], totalWeight = 10, csize = 1, penalty = Some (5 / 2)\<rparr>"
proof -
  have a: "edges twinDangling = [mkEdge ''A'' ''B''] @ mkEdge ''A'' ''Z'' # []"
    by (simp add: twinDangling_def)
  have b: "e_to (mkEdge ''A'' ''Z'') \<notin> idsOf twinDangling"
    by (simp add: idsOf_def twinDangling_def mkEdge_def mkChunk_def)
  then have b': "e_from (mkEdge ''A'' ''Z'') \<notin> idsOf twinDangling \<or>
                 e_to (mkEdge ''A'' ''Z'') \<notin> idsOf twinDangling" by (rule disjI2)
  have c: "twinDangling\<lparr>edges := [mkEdge ''A'' ''B''] @ []\<rparr> = twinGraph"
    by (simp add: twinDangling_def twinGraph_def)
  show ?thesis using graceful_degradation[OF a b', of 1] a b c twinGraph_solve by simp
qed

text \<open>The claim as stated fails where the key of an entry is not the id of its chunk: neither
  A nor B is a key of the chunk mapping, and yet the edge A -> B pulls B into the closure.\<close>

theorem graceful_degradation_counterexample:
  "edges keyGraph = [] @ mkEdge ''A'' ''B'' # [] \<and>
   e_from (mkEdge ''A'' ''B'') \<notin> keysOf keyGraph \<and>
   e_to (mkEdge ''A'' ''B'') \<notin> keysOf keyGraph \<and>
   maximumWeightClosure (keyGraph\<lparr>edges := [] @ []\<rparr>) \<noteq> maximumWeightClosure keyGraph"
  unfolding keyGraph_with_edge keyGraph_without_edge
  by (simp add: keyGraph_def keysOf_def mkEdge_def)

section \<open>Closure ids\<close>

lemma dupGraph_solve:
  "solveClosureBySize dupGraph 2 =
     Some \<lparr>closure = [''A'', ''A''], totalWeight = 0, csize = 2, penalty = Some 0\<rparr>"
  by code_simp

text \<open>
  Claim C10, as the code has it. In a graph in which every chunk is stored under its own id,
  each id in the closure returned by \<open>solveClosureBySize\<close> is a key of the chunk mapping and
  appears exactly once. For every graph, the Size Enforcer only removes: the ids it returns
  are among the ids it was given.
\<close>

theorem closure_ids:
  "(wf_graph g \<longrightarrow>
      (\<exists>sol. solveClosureBySize g k = Some sol \<and> set (closure sol) \<subseteq> keysOf g \<and>
             distinct (closure sol))) \<and>
   set (enforceSizeLimit g' ids k') \<subseteq> set ids"
proof (intro conjI impI)
  assume wf: "wf_graph g"
  obtain sol where s: "solveClosureBySize g k = Some sol" using solve_total by blast
  show "\<exists>sol. solveClosureBySize g k = Some sol \<and> set (closure sol) \<subseteq> keysOf g \<and>
             distinct (closure sol)"
    using s solve_properties(1,2)[OF wf s] by blast
next
  show "set (enforceSizeLimit g' ids k') \<subseteq> set ids" by (rule enforceSizeLimit_subset)
qed

theorem closure_ids_witness:
  "wf_graph twinGraph \<and>
   (\<exists>sol. solveClosureBySize twinGraph 1 = Some sol \<and> set (closure sol) \<subseteq> keysOf twinGraph \<and>
          distinct (closure sol)) \<and>
   set (enforceSizeLimit twinGraph [''A'', ''B''] 1) \<subseteq> set [''A'', ''B'']"
proof -
  have wf: "wf_graph twinGraph" by (simp add: wf_graph_def twinGraph_def mkChunk_def)
  show ?thesis using closure_ids[of twinGraph 1 twinGraph "[''A'', ''B'']" 1] wf by blast
qed

text \<open>The claim as stated fails where two chunks are stored under keys that are not their
  id: the closure lists the id A twice, and A is not a key.\<close>

theorem closure_ids_counterexample:
  "solveClosureBySize dupGraph 2 =
     Some \<lparr>closure = [''A'', ''A''], totalWeight = 0, csize = 2, penalty = Some 0\<rparr> \<and>
   \<not> distinct [''A'', ''A''] \<and> ''A'' \<notin> keysOf dupGraph"
  using dupGraph_solve by (simp add: dupGraph_def keysOf_def)

end
